theory Spec2Isabelle
  imports
    Complex_Main
    "HOL-Library.Word"
    "HOL-Library.Char_ord"
    "HOL-Library.List_Lexorder"
    "HOL-Library.Product_Lexorder"
    "HOL-Library.AList"
    "HOL-Library.Multiset"
begin

section \<open>Podium generation of \<^verbatim>\<open>smtcomp/generate_website_page.py\<close>\<close>

text \<open>
  The module turns two Polars frames (the results of the solvers and the selection of
  benchmarks) into one \<^verbatim>\<open>PodiumDivision\<close> per division and per logic. Frames are
  modelled as lists of rows, Polars expressions as functions on rows, Python
  exceptions as the left summand of a sum type.

  Conventions of the embedding.
  \<^item> Several records of the source share column names (\<^verbatim>\<open>solver\<close>, \<^verbatim>\<open>division\<close>,
    \<^verbatim>\<open>solved\<close>, ...). The names are kept and written qualified
    (\<^verbatim>\<open>result.solver\<close>, \<^verbatim>\<open>aggregate.solver\<close>) where they clash.
  \<^item> \<^verbatim>\<open>pl.len()\<close> and the sum of a Boolean expression are \<^verbatim>\<open>UInt32\<close> columns in
    Polars, and arithmetic on them wraps around: they are \<open>32 word\<close>. They become
    Python integers (\<open>uint\<close>) when the frame is turned into dictionaries; the model
    converts them where the records of the page are built.
  \<^item> The row index of a Polars frame is \<^verbatim>\<open>UInt32\<close> as well, so a frame has fewer than
    \<open>2^32\<close> rows. The lists of the model are not bounded; the bound is a hypothesis
    where a property needs it.
  \<^item> The two integer scores are \<^verbatim>\<open>Int64\<close> columns: a value is an integer, and the sum
    of a column wraps around at 64 bits (\<open>sum_i64\<close>). The record of the page holds
    Python integers, which do not wrap.
  \<^item> The two time scores are \<^verbatim>\<open>Float64\<close> columns: a value is a real (NaN and the
    infinities are not modelled). The sum of a column rounds, and Polars does not fix
    the order of its additions: it is a parameter of the model (\<open>sum_f64\<close>), of which
    nothing is assumed.
  \<^item> Polars leaves the order of the groups of \<^verbatim>\<open>group_by\<close> unspecified; the model
    lists them in the order of first occurrence. Nothing below depends on it.
  \<^item> \<^verbatim>\<open>drop\<close> of a column is the identity: the columns \<^verbatim>\<open>track\<close> and
    \<^verbatim>\<open>disagreements\<close> are dropped right after a filter that makes them constant.
  \<^item> The errors of the model are the exceptions the code of the file can raise on
    frames of the right schema. Failures of the file system, of the validation of the
    records by pydantic and of the modules that are not part of the file are not
    modelled.
\<close>

subsection \<open>Errors\<close>

datatype error =
  ComputeError    \<comment> \<open>Polars: a join whose \<^verbatim>\<open>validate="1:1"\<close> check fails\<close>
  | IndexError    \<comment> \<open>Python: \<^verbatim>\<open>l[0]\<close> on an empty list\<close>
  | TypeError     \<comment> \<open>Python: iterating over \<^verbatim>\<open>None\<close>\<close>

definition bind_error :: "error + 'a \<Rightarrow> ('a \<Rightarrow> error + 'b) \<Rightarrow> error + 'b" where
  "bind_error m f = (case m of Inl e \<Rightarrow> Inl e | Inr x \<Rightarrow> f x)"

fun map_error :: "('a \<Rightarrow> error + 'b) \<Rightarrow> 'a list \<Rightarrow> error + 'b list" where
  "map_error f [] = Inr []"
| "map_error f (x # xs) =
     bind_error (f x) (\<lambda>y. bind_error (map_error f xs) (\<lambda>ys. Inr (y # ys)))"

subsection \<open>The input frames\<close>

type_synonym u32 = "32 word"

record benchmark =
  division :: int
  logic :: int

record selection = benchmark +
  selected :: bool

text \<open>
  A row of \<^verbatim>\<open>results\<close>. The columns the scoring module reads (the answer, the
  times, ...) are the extension of the record.
\<close>

record result = benchmark +
  solver :: string
  track :: int
  disagreements :: bool
  error_score :: int
  correctly_solved_score :: int
  cpu_time_score :: real
  wallclock_time_score :: real

subsection \<open>The modules that are not part of the file\<close>

record Config =
  current_year :: int
  timelimit_s :: int
  memlimit_M :: int
  web_results :: string

text \<open>
  \<^verbatim>\<open>smtcomp.defs\<close>: the names of the divisions and of the logics, and the integer of the
  single query track. They are parameters of the model.
\<close>

record defs =
  Division_name_of_int :: "int \<Rightarrow> string"
  Logic_name_of_int :: "int \<Rightarrow> string"
  SingleQuery :: int

text \<open>
  \<^verbatim>\<open>smtcomp.scoring\<close>: the kinds of scoring, the filter of each kind, the list
  \<^verbatim>\<open>scores\<close> of score columns and the answer expressions. The kinds are the five names
  \<^verbatim>\<open>make_podium\<close> reads; the rest are parameters of the model.
\<close>

datatype Kind = seq | par | sat | unsat | twentyfour

definition all_kinds :: "Kind list" where
  \<comment> \<open>\<^verbatim>\<open>for kind in smtcomp.scoring.Kind\<close>; the order only decides the order of the
      columns of the joined frame\<close>
  "all_kinds = [Kind.seq, Kind.par, Kind.sat, Kind.unsat, Kind.twentyfour]"

datatype score_column =
  Error_score | Correctly_solved_score | Cpu_time_score | Wallclock_time_score

record 'a scoring =
  filter_for :: "Kind \<Rightarrow> Config \<Rightarrow> 'a result_scheme list \<Rightarrow> 'a result_scheme list"
  scores :: "score_column list"
  known_answer :: "'a result_scheme \<Rightarrow> bool"
  sat_answer :: "'a result_scheme \<Rightarrow> bool"
  unsat_answer :: "'a result_scheme \<Rightarrow> bool"
  unknown_answer :: "'a result_scheme \<Rightarrow> bool"
  timeout_answer :: "'a result_scheme \<Rightarrow> bool"
  memout_answer :: "'a result_scheme \<Rightarrow> bool"

subsection \<open>Polars operations\<close>

text \<open>
  The kernel of Polars the model does not define: \<^verbatim>\<open>pl.sum\<close> of a \<^verbatim>\<open>Float64\<close> column,
  as a function of the values of the column in the order of the rows.
\<close>

record polars =
  sum_f64 :: "real list \<Rightarrow> real"

definition sum_i64 :: "int list \<Rightarrow> int" where
  \<comment> \<open>\<^verbatim>\<open>pl.sum\<close> of an \<^verbatim>\<open>Int64\<close> column: the sum in two's complement on 64 bits\<close>
  "sum_i64 xs =
     (sum_list xs + 9223372036854775808) mod 18446744073709551616 - 9223372036854775808"

definition uniq :: "'a list \<Rightarrow> 'a list" where
  \<comment> \<open>the distinct values of a column, in the order of their first occurrence\<close>
  "uniq xs = rev (remdups (rev xs))"

definition pl_group_by :: "('r \<Rightarrow> 'k) \<Rightarrow> 'r list \<Rightarrow> ('k \<times> 'r list) list" where
  \<comment> \<open>\<^verbatim>\<open>.group_by(columns)\<close>: the groups with their rows, in the order of the frame\<close>
  "pl_group_by key rows =
     map (\<lambda>k. (k, filter (\<lambda>r. key r = k) rows)) (uniq (map key rows))"

definition pl_len :: "'r list \<Rightarrow> u32" where
  \<comment> \<open>\<^verbatim>\<open>pl.len()\<close>\<close>
  "pl_len rows = of_nat (length rows)"

definition pl_count :: "('r \<Rightarrow> bool) \<Rightarrow> 'r list \<Rightarrow> u32" where
  \<comment> \<open>\<^verbatim>\<open>(expr).sum()\<close> of a Boolean expression\<close>
  "pl_count p rows = of_nat (length (filter p rows))"

fun insort_desc :: "('r \<Rightarrow> 'k::linorder) \<Rightarrow> 'r \<Rightarrow> 'r list \<Rightarrow> 'r list" where
  "insort_desc key x [] = [x]"
| "insort_desc key x (y # ys) =
     (if key y \<le> key x then x # y # ys else y # insort_desc key x ys)"

definition sort_desc :: "('r \<Rightarrow> 'k::linorder) \<Rightarrow> 'r list \<Rightarrow> 'r list" where
  \<comment> \<open>\<^verbatim>\<open>.sort(columns, descending=True)\<close>, \<open>key\<close> being the tuple of the columns; rows
      of equal keys stay in their order\<close>
  "sort_desc key rows = foldr (insort_desc key) rows []"

definition join_left ::
  "('d \<Rightarrow> int) \<Rightarrow> ('d \<Rightarrow> 'v option \<Rightarrow> 'd) \<Rightarrow> (int \<times> 'v) list \<Rightarrow> 'd list \<Rightarrow> error + 'd list"
where
  \<comment> \<open>\<^verbatim>\<open>x.join(y, validate="1:1", on=[group_by], how="left")\<close>: the keys of both frames
      must be unique; every row of \<open>x\<close> is kept and gets the column of \<open>y\<close>, null where
      \<open>y\<close> has no row of its key\<close>
  "join_left key put y x =
     (if distinct (map key x) \<and> distinct (map fst y)
      then Inr (map (\<lambda>d. put d (map_of y (key d))) x)
      else Inl ComputeError)"

text \<open>
  Modelled from the spec: \<^verbatim>\<open>intersect\<close> of \<^verbatim>\<open>smtcomp.utils\<close> is not part of the file. The
  specification describes it as the inner restriction of the results to the group
  values of the totals table, and line 159 reads the column \<^verbatim>\<open>total\<close> of its result: an
  inner join on the group key.
\<close>

definition intersect :: "('r \<Rightarrow> int) \<Rightarrow> 'r list \<Rightarrow> (int \<times> 't) list \<Rightarrow> ('r \<times> 't) list" where
  "intersect on lf1 lf2 =
     concat (map (\<lambda>r. map (\<lambda>kt. (r, snd kt)) (filter (\<lambda>kt. fst kt = on r) lf2)) lf1)"

subsection \<open>Python helpers\<close>

definition dict :: "('k \<times> 'v) list \<Rightarrow> ('k \<times> 'v) list" where
  \<comment> \<open>\<^verbatim>\<open>dict(items)\<close>: insertion order, a later value replaces an earlier one of its key\<close>
  "dict items = fold (\<lambda>kv. AList.update (fst kv) (snd kv)) items []"

fun str_nat :: "nat \<Rightarrow> string" where
  "str_nat n =
     (if n < 10 then [''0123456789'' ! n]
      else str_nat (n div 10) @ [''0123456789'' ! (n mod 10)])"

definition str_int :: "int \<Rightarrow> string" where
  "str_int i = (if i < 0 then CHR ''-'' # str_nat (nat (- i)) else str_nat (nat i))"

definition lower :: "string \<Rightarrow> string" where
  \<comment> \<open>\<^verbatim>\<open>str.lower()\<close> on ASCII letters\<close>
  "lower s =
     map (\<lambda>c. case map_of (zip ''ABCDEFGHIJKLMNOPQRSTUVWXYZ'' ''abcdefghijklmnopqrstuvwxyz'') c of
                 None \<Rightarrow> c | Some l \<Rightarrow> l) s"

subsection \<open>The records of the page\<close>

text \<open>The struct of lines 164 to 177: one row of a ranked list, as Polars holds it.\<close>

record aggregate =
  solver :: string
  error_score :: int
  correctly_solved_score :: int
  cpu_time_score :: real
  wallclock_time_score :: real
  solved :: u32
  solved_sat :: u32
  solved_unsat :: u32
  unsolved :: u32
  timeout :: u32
  memout :: u32
  abstained :: u32

record PodiumStep =
  name :: string
  competing :: string
  errorScore :: int
  correctScore :: int
  CPUScore :: real
  WallScore :: real
  solved :: int
  solved_sat :: int
  solved_unsat :: int
  unsolved :: int
  abstained :: int
  timeout :: int
  memout :: int

record PodiumDivision =
  resultdate :: string
  year :: int
  divisions :: string
  participants :: string
  disagreements :: string
  division :: string
  track :: string
  n_benchmarks :: int
  time_limit :: int
  mem_limit :: int
  logics :: "(string \<times> int) list"
  winner_seq :: string
  winner_par :: string
  winner_sat :: string
  winner_unsat :: string
  winner_24s :: string
  sequential :: "PodiumStep list"
  parallel :: "PodiumStep list"
  sat :: "PodiumStep list"
  unsat :: "PodiumStep list"
  twentyfour :: "PodiumStep list"
  layout :: string

text \<open>
  A row \<^verbatim>\<open>d\<close> of the collected frame (\<^verbatim>\<open>df.to_dicts()\<close>): the group value, its total,
  the column \<^verbatim>\<open>logics\<close> and one column per kind. A column is \<open>None\<close> where the left
  join found no row (or, for \<^verbatim>\<open>logics\<close>, where the frame has no such column).
\<close>

record podium_row =
  d_group :: int
  d_total :: u32
  d_logics :: "(int \<times> u32) list option"
  d_kind :: "Kind \<Rightarrow> aggregate list option"

subsection \<open>\<^verbatim>\<open>podium_steps\<close> and \<^verbatim>\<open>make_podium\<close>\<close>

definition podium_step :: "aggregate \<Rightarrow> PodiumStep" where
  "podium_step s =
     \<lparr> name = aggregate.solver s,
       competing = ''yes'',
       errorScore = - aggregate.error_score s,
       correctScore = aggregate.correctly_solved_score s,
       CPUScore = aggregate.cpu_time_score s,
       WallScore = aggregate.wallclock_time_score s,
       PodiumStep.solved = uint (aggregate.solved s),
       PodiumStep.solved_sat = uint (aggregate.solved_sat s),
       PodiumStep.solved_unsat = uint (aggregate.solved_unsat s),
       PodiumStep.unsolved = uint (aggregate.unsolved s),
       PodiumStep.abstained = uint (aggregate.abstained s),
       PodiumStep.timeout = uint (aggregate.timeout s),
       PodiumStep.memout = uint (aggregate.memout s) \<rparr>"

definition podium_steps :: "aggregate list option \<Rightarrow> PodiumStep list" where
  "podium_steps podium = (case podium of None \<Rightarrow> [] | Some l \<Rightarrow> map podium_step l)"

definition get_winner :: "aggregate list option \<Rightarrow> error + string" where
  "get_winner l =
     (case l of
        None \<Rightarrow> Inr ''-''
      | Some [] \<Rightarrow> Inl IndexError
      | Some (s # _) \<Rightarrow>
          if aggregate.correctly_solved_score s = 0 then Inr ''-''
          else Inr (aggregate.solver s))"

definition make_podium :: "defs \<Rightarrow> Config \<Rightarrow> podium_row \<Rightarrow> bool \<Rightarrow> error + PodiumDivision" where
  "make_podium ds config d for_division =
     bind_error
       (if for_division then
          (case d_logics d of
             None \<Rightarrow> Inl TypeError
           | Some l \<Rightarrow>
               Inr (Division_name_of_int ds (d_group d),
                    dict (map (\<lambda>d2. (Logic_name_of_int ds (fst d2), uint (snd d2))) l)))
        else Inr (Logic_name_of_int ds (d_group d), dict []))
       (\<lambda>dl.
     bind_error (get_winner (d_kind d Kind.seq)) (\<lambda>w_seq.
     bind_error (get_winner (d_kind d Kind.par)) (\<lambda>w_par.
     bind_error (get_winner (d_kind d Kind.sat)) (\<lambda>w_sat.
     bind_error (get_winner (d_kind d Kind.unsat)) (\<lambda>w_unsat.
     bind_error (get_winner (d_kind d Kind.twentyfour)) (\<lambda>w_24s.
       Inr \<lparr> resultdate = ''2024-07-08'',
             year = current_year config,
             divisions = ''divisions_'' @ str_int (current_year config),
             participants = ''participants_'' @ str_int (current_year config),
             PodiumDivision.disagreements = ''disagreements_'' @ str_int (current_year config),
             PodiumDivision.division = fst dl,
             PodiumDivision.track = ''track_single_query'',
             n_benchmarks = uint (d_total d),
             time_limit = timelimit_s config,
             mem_limit = memlimit_M config,
             logics = dict (sort (snd dl)),
             winner_seq = w_seq,
             winner_par = w_par,
             winner_sat = w_sat,
             winner_unsat = w_unsat,
             winner_24s = w_24s,
             sequential = podium_steps (d_kind d Kind.seq),
             parallel = podium_steps (d_kind d Kind.par),
             PodiumDivision.sat = podium_steps (d_kind d Kind.sat),
             PodiumDivision.unsat = podium_steps (d_kind d Kind.unsat),
             PodiumDivision.twentyfour = podium_steps (d_kind d Kind.twentyfour),
             layout = ''result'' \<rparr>))))))"

text \<open>The winner and the ranked list a \<^verbatim>\<open>PodiumDivision\<close> holds for a kind.\<close>

fun winner_of :: "Kind \<Rightarrow> PodiumDivision \<Rightarrow> string" where
  "winner_of Kind.seq p = winner_seq p"
| "winner_of Kind.par p = winner_par p"
| "winner_of Kind.sat p = winner_sat p"
| "winner_of Kind.unsat p = winner_unsat p"
| "winner_of Kind.twentyfour p = winner_24s p"

fun ranked_of :: "Kind \<Rightarrow> PodiumDivision \<Rightarrow> PodiumStep list" where
  "ranked_of Kind.seq p = sequential p"
| "ranked_of Kind.par p = parallel p"
| "ranked_of Kind.sat p = PodiumDivision.sat p"
| "ranked_of Kind.unsat p = PodiumDivision.unsat p"
| "ranked_of Kind.twentyfour p = PodiumDivision.twentyfour p"

subsection \<open>\<^verbatim>\<open>sq_generate_datas\<close>\<close>

definition group_by :: "bool \<Rightarrow> 'a benchmark_scheme \<Rightarrow> int" where
  "group_by for_division r = (if for_division then benchmark.division r else logic r)"

definition name_of_int :: "defs \<Rightarrow> bool \<Rightarrow> int \<Rightarrow> string" where
  "name_of_int ds for_division =
     (if for_division then Division_name_of_int ds else Logic_name_of_int ds)"

definition len_by_division :: "bool \<Rightarrow> selection list \<Rightarrow> (int \<times> u32) list" where
  \<comment> \<open>line 141, on the selected rows\<close>
  "len_by_division for_division selection =
     map (\<lambda>g. (fst g, pl_len (snd g))) (pl_group_by (group_by for_division) selection)"

definition score_value :: "score_column \<Rightarrow> aggregate \<Rightarrow> real" where
  \<comment> \<open>the value of a score column in an aggregated row; the integer columns are read as
      reals, which keeps their order\<close>
  "score_value c a =
     (case c of
        Error_score \<Rightarrow> of_int (aggregate.error_score a)
      | Correctly_solved_score \<Rightarrow> of_int (aggregate.correctly_solved_score a)
      | Cpu_time_score \<Rightarrow> aggregate.cpu_time_score a
      | Wallclock_time_score \<Rightarrow> aggregate.wallclock_time_score a)"

definition rank_key :: "'a scoring \<Rightarrow> aggregate \<Rightarrow> real list \<times> string" where
  "rank_key sc a = (map (\<lambda>c. score_value c a) (scores sc), aggregate.solver a)"

definition sort_columns :: "'a scoring \<Rightarrow> int \<times> aggregate \<Rightarrow> int \<times> real list \<times> string" where
  \<comment> \<open>\<^verbatim>\<open>[group_by] + smtcomp.scoring.scores + ["solver"]\<close>\<close>
  "sort_columns sc ga = (fst ga, rank_key sc (snd ga))"

definition agg_row :: "polars \<Rightarrow> 'a scoring \<Rightarrow> string \<Rightarrow> u32 \<Rightarrow> 'a result_scheme list \<Rightarrow> aggregate" where
  \<comment> \<open>the expressions of lines 148 to 160 on the rows of one solver in one group;
      \<open>first_total\<close> is \<^verbatim>\<open>pl.col("total").first()\<close>. The column \<^verbatim>\<open>total\<close> is the
      \<^verbatim>\<open>pl.len()\<close> of line 141, so both operands of the subtraction of line 159 are
      \<^verbatim>\<open>UInt32\<close> and the difference wraps around\<close>
  "agg_row pl sc s first_total rows =
     \<lparr> aggregate.solver = s,
       aggregate.error_score = sum_i64 (map result.error_score rows),
       aggregate.correctly_solved_score = sum_i64 (map result.correctly_solved_score rows),
       aggregate.cpu_time_score = sum_f64 pl (map result.cpu_time_score rows),
       aggregate.wallclock_time_score = sum_f64 pl (map result.wallclock_time_score rows),
       aggregate.solved = pl_count (known_answer sc) rows,
       aggregate.solved_sat = pl_count (sat_answer sc) rows,
       aggregate.solved_unsat = pl_count (unsat_answer sc) rows,
       aggregate.unsolved = pl_count (unknown_answer sc) rows,
       aggregate.timeout = pl_count (timeout_answer sc) rows,
       aggregate.memout = pl_count (memout_answer sc) rows,
       aggregate.abstained = first_total - pl_len rows \<rparr>"

fun agg ::
  "polars \<Rightarrow> 'a scoring \<Rightarrow> (int \<times> string) \<times> ('a result_scheme \<times> u32) list \<Rightarrow> (int \<times> aggregate) option"
where
  \<comment> \<open>one group of \<^verbatim>\<open>group_by(group_by, "solver")\<close>: its key and its rows, each with the
      column \<^verbatim>\<open>total\<close> of the join; Polars has no empty group\<close>
  "agg pl sc (gs, []) = None"
| "agg pl sc (gs, rt # rts) = Some (fst gs, agg_row pl sc (snd gs) (snd rt) (map fst (rt # rts)))"

definition info_for_podium_step ::
  "polars \<Rightarrow> 'a scoring \<Rightarrow> bool \<Rightarrow> (int \<times> u32) list \<Rightarrow> Kind \<Rightarrow> Config \<Rightarrow> 'a result_scheme list
     \<Rightarrow> (int \<times> aggregate list) list"
where
  "info_for_podium_step pl sc for_division len_by_div kind config results =
     (let results = filter_for sc kind config results;
          joined = intersect (group_by for_division) results len_by_div;
          aggregated =
            List.map_filter (agg pl sc)
              (pl_group_by (\<lambda>rt. (group_by for_division (fst rt), result.solver (fst rt))) joined);
          sorted = sort_desc (sort_columns sc) aggregated
      in map (\<lambda>g. (fst g, map snd (snd g))) (pl_group_by fst sorted))"

definition lf_logics :: "selection list \<Rightarrow> (int \<times> (int \<times> u32) list) list" where
  \<comment> \<open>lines 182 to 187, on the selected rows\<close>
  "lf_logics selection =
     map (\<lambda>g. (fst g, map snd (snd g)))
       (pl_group_by fst
          (map (\<lambda>g. (fst (fst g), (snd (fst g), pl_len (snd g))))
             (pl_group_by (\<lambda>r. (benchmark.division r, logic r)) selection)))"

definition sq_collect ::
  "polars \<Rightarrow> defs \<Rightarrow> 'a scoring \<Rightarrow> Config \<Rightarrow> selection list \<Rightarrow> 'a result_scheme list \<Rightarrow> bool
     \<Rightarrow> error + podium_row list"
where
  \<comment> \<open>lines 137 to 195: the frame \<^verbatim>\<open>df\<close>\<close>
  "sq_collect pl ds sc config selection results for_division =
     (let results = filter (\<lambda>r. result.track r = SingleQuery ds) results;
          selection = filter selected selection;
          len_by_div = len_by_division for_division selection;
          l = (if for_division
               then [join_left d_group (\<lambda>d v. d\<lparr>d_logics := v\<rparr>) (lf_logics selection)]
               else [])
              @ map (\<lambda>kind.
                    join_left d_group (\<lambda>d v. d\<lparr>d_kind := (d_kind d)(kind := v)\<rparr>)
                      (info_for_podium_step pl sc for_division len_by_div kind config results))
                  all_kinds
      in foldl bind_error
           (Inr (map (\<lambda>kt. \<lparr> d_group = fst kt, d_total = snd kt, d_logics = None,
                              d_kind = (\<lambda>kind. None) \<rparr>) len_by_div))
           l)"

definition sq_generate_datas ::
  "polars \<Rightarrow> defs \<Rightarrow> 'a scoring \<Rightarrow> Config \<Rightarrow> selection list \<Rightarrow> 'a result_scheme list \<Rightarrow> bool
     \<Rightarrow> error + (string \<times> PodiumDivision) list"
where
  "sq_generate_datas pl ds sc config selection results for_division =
     bind_error (sq_collect pl ds sc config selection results for_division) (\<lambda>df.
     bind_error
       (map_error
          (\<lambda>d. bind_error (make_podium ds config d for_division)
                 (\<lambda>p. Inr (name_of_int ds for_division (d_group d), p)))
          df)
       (\<lambda>items. Inr (dict items)))"

subsection \<open>\<^verbatim>\<open>export_results\<close>\<close>

text \<open>
  The files written, in the order of the writes, and the exception that ended the run
  if there was one. A file is its path and the record that is dumped into it (the
  serialisation is not modelled). The files of the divisions are written before the
  logics are computed.
\<close>

definition write_all :: "Config \<Rightarrow> (string \<times> PodiumDivision) list \<Rightarrow> (string \<times> PodiumDivision) list" where
  "write_all config datas =
     map (\<lambda>nd. (web_results config @ ''/'' @ lower (fst nd) @ ''-single-query.md'', snd nd)) datas"

definition export_results ::
  "polars \<Rightarrow> defs \<Rightarrow> 'a scoring \<Rightarrow> Config \<Rightarrow> selection list \<Rightarrow> 'a result_scheme list
     \<Rightarrow> (string \<times> PodiumDivision) list \<times> error option"
where
  "export_results pl ds sc config selection results =
     (let results = filter (\<lambda>r. \<not> result.disagreements r) results in
      case sq_generate_datas pl ds sc config selection results True of
        Inl e \<Rightarrow> ([], Some e)
      | Inr by_division \<Rightarrow>
          (case sq_generate_datas pl ds sc config selection results False of
             Inl e \<Rightarrow> (write_all config by_division, Some e)
           | Inr by_logic \<Rightarrow> (write_all config by_division @ write_all config by_logic, None)))"

subsection \<open>Notions the properties are stated with\<close>

text \<open>The rows that survive the track filter and the filter of a kind.\<close>

definition variant_rows ::
  "defs \<Rightarrow> 'a scoring \<Rightarrow> Kind \<Rightarrow> Config \<Rightarrow> 'a result_scheme list \<Rightarrow> 'a result_scheme list"
where
  "variant_rows ds sc kind config results =
     filter_for sc kind config (filter (\<lambda>r. result.track r = SingleQuery ds) results)"

text \<open>The rows of a frame a solver contributes to a group.\<close>

definition solver_rows ::
  "bool \<Rightarrow> int \<Rightarrow> string \<Rightarrow> 'a result_scheme list \<Rightarrow> 'a result_scheme list"
where
  "solver_rows fd g s F = filter (\<lambda>r. group_by fd r = g \<and> result.solver r = s) F"

text \<open>The number of selected benchmarks of a group.\<close>

definition total_of :: "bool \<Rightarrow> selection list \<Rightarrow> int \<Rightarrow> nat" where
  "total_of fd selection g = length (filter (\<lambda>b. selected b \<and> group_by fd b = g) selection)"

text \<open>The number of selected benchmarks of a logic in a division.\<close>

definition logic_count :: "selection list \<Rightarrow> int \<Rightarrow> int \<Rightarrow> nat" where
  "logic_count selection g l =
     length (filter (\<lambda>b. selected b \<and> benchmark.division b = g \<and> logic b = l) selection)"

text \<open>The logics of the selected benchmarks of a division, each once.\<close>

definition division_logics :: "selection list \<Rightarrow> int \<Rightarrow> int list" where
  "division_logics selection g =
     uniq (map logic (filter (\<lambda>b. selected b \<and> benchmark.division b = g) selection))"

text \<open>A row is classified when exactly one of the four outcomes holds of it.\<close>

definition classified :: "'a scoring \<Rightarrow> 'a result_scheme \<Rightarrow> bool" where
  "classified sc r =
     (length (filter id [known_answer sc r, unknown_answer sc r, timeout_answer sc r,
                         memout_answer sc r]) = 1)"

subsection \<open>Intermediate frames, named for the proofs\<close>

definition solver_key :: "bool \<Rightarrow> ('a result_scheme \<times> u32) \<Rightarrow> int \<times> string" where
  "solver_key fd rt = (group_by fd (fst rt), result.solver (fst rt))"

definition aggregated ::
  "polars \<Rightarrow> 'a scoring \<Rightarrow> bool \<Rightarrow> ('a result_scheme \<times> u32) list \<Rightarrow> (int \<times> aggregate) list"
where
  "aggregated pl sc fd J = List.map_filter (agg pl sc) (pl_group_by (solver_key fd) J)"

definition ranked ::
  "polars \<Rightarrow> 'a scoring \<Rightarrow> bool \<Rightarrow> (int \<times> u32) list \<Rightarrow> Kind \<Rightarrow> Config \<Rightarrow> 'a result_scheme list \<Rightarrow> int
     \<Rightarrow> aggregate list"
where
  "ranked pl sc fd T kind config R g =
     map snd (filter (\<lambda>ga. fst ga = g)
       (sort_desc (sort_columns sc)
          (aggregated pl sc fd (intersect (group_by fd) (filter_for sc kind config R) T))))"

definition collected_row ::
  "polars \<Rightarrow> defs \<Rightarrow> 'a scoring \<Rightarrow> Config \<Rightarrow> selection list \<Rightarrow> 'a result_scheme list \<Rightarrow> bool
     \<Rightarrow> int \<times> u32 \<Rightarrow> podium_row"
where
  "collected_row pl ds sc config selection results fd kt =
     \<lparr> d_group = fst kt,
       d_total = snd kt,
       d_logics = (if fd then map_of (lf_logics (filter selected selection)) (fst kt) else None),
       d_kind = (\<lambda>kind.
         map_of (info_for_podium_step pl sc fd (len_by_division fd (filter selected selection)) kind
                   config (filter (\<lambda>r. result.track r = SingleQuery ds) results)) (fst kt)) \<rparr>"

subsection \<open>Concrete inputs\<close>

text \<open>
  Modelled from the spec: the scoring module is not part of the file. This instance,
  used for the concrete runs below, reads an answer column; its filter keeps every row
  for every kind.
\<close>

datatype Answer = Sat | Unsat | Unknown | Timeout | Memout

record answered = result +
  answer :: Answer

text \<open>
  The sum of the runs below: their time scores are small integers, of which the sum
  in \<^verbatim>\<open>Float64\<close> is exact in any order.
\<close>

definition demo_polars :: polars where
  "demo_polars = \<lparr> sum_f64 = sum_list \<rparr>"

definition demo_scoring :: "unit answered_ext scoring" where
  "demo_scoring =
     \<lparr> filter_for = (\<lambda>kind config results. results),
       scores = [Error_score, Correctly_solved_score, Wallclock_time_score, Cpu_time_score],
       known_answer = (\<lambda>r. answer r = Sat \<or> answer r = Unsat),
       sat_answer = (\<lambda>r. answer r = Sat),
       unsat_answer = (\<lambda>r. answer r = Unsat),
       unknown_answer = (\<lambda>r. answer r = Unknown),
       timeout_answer = (\<lambda>r. answer r = Timeout),
       memout_answer = (\<lambda>r. answer r = Memout) \<rparr>"

definition demo_defs :: defs where
  "demo_defs =
     \<lparr> Division_name_of_int = (\<lambda>i. if i = 1 then ''Arith'' else ''Bitvec''),
       Logic_name_of_int =
         (\<lambda>i. if i = 1 then ''QF_NIA'' else if i = 2 then ''QF_LIA'' else ''QF_BV''),
       SingleQuery = 3 \<rparr>"

definition demo_config :: Config where
  "demo_config =
     \<lparr> current_year = 2024, timelimit_s = 1200, memlimit_M = 30000, web_results = ''web'' \<rparr>"

definition demo_result :: "string \<Rightarrow> int \<Rightarrow> int \<Rightarrow> Answer \<Rightarrow> int \<Rightarrow> int \<Rightarrow> answered" where
  \<comment> \<open>solver, division, logic, answer, error score, correctness score\<close>
  "demo_result s dv lg a e c =
     \<lparr> benchmark.division = dv, logic = lg, result.solver = s, result.track = 3,
       result.disagreements = False, result.error_score = e,
       result.correctly_solved_score = c, result.cpu_time_score = 2,
       result.wallclock_time_score = 1, answer = a \<rparr>"

definition demo_benchmark :: "int \<Rightarrow> int \<Rightarrow> bool \<Rightarrow> selection" where
  "demo_benchmark dv lg s = \<lparr> benchmark.division = dv, logic = lg, selected = s \<rparr>"

text \<open>
  Division 1 has three selected benchmarks (two of logic 1, one of logic 2) and the
  results of two solvers; division 2 has one selected benchmark and no result.
\<close>

definition demo_selection :: "selection list" where
  "demo_selection =
     [demo_benchmark 1 1 True, demo_benchmark 1 1 True, demo_benchmark 1 2 True,
      demo_benchmark 2 3 True, demo_benchmark 1 2 False]"

definition demo_results :: "answered list" where
  "demo_results =
     [demo_result ''B'' 1 1 Sat (- 1) 0, demo_result ''A'' 1 1 Sat 0 1,
      demo_result ''A'' 1 1 Unsat 0 1, demo_result ''A'' 1 2 Timeout 0 0,
      demo_result ''B'' 1 2 Sat 0 1]"

definition demo_df :: "podium_row list" where
  "demo_df =
     map (collected_row demo_polars demo_defs demo_scoring demo_config demo_selection demo_results True)
       [(1, 3), (2, 1)]"

definition demo_d :: podium_row where
  "demo_d =
     collected_row demo_polars demo_defs demo_scoring demo_config demo_selection demo_results True (1, 3)"

definition demo_p :: PodiumDivision where
  "demo_p = projr (make_podium demo_defs demo_config demo_d True)"

definition demo_A :: aggregate where
  "demo_A =
     \<lparr> aggregate.solver = ''A'', aggregate.error_score = 0, aggregate.correctly_solved_score = 2,
       aggregate.cpu_time_score = 6, aggregate.wallclock_time_score = 3, aggregate.solved = 2,
       aggregate.solved_sat = 1, aggregate.solved_unsat = 1, aggregate.unsolved = 0,
       aggregate.timeout = 1, aggregate.memout = 0, aggregate.abstained = 0 \<rparr>"

definition demo_B :: aggregate where
  "demo_B =
     \<lparr> aggregate.solver = ''B'', aggregate.error_score = - 1, aggregate.correctly_solved_score = 1,
       aggregate.cpu_time_score = 4, aggregate.wallclock_time_score = 2, aggregate.solved = 2,
       aggregate.solved_sat = 2, aggregate.solved_unsat = 0, aggregate.unsolved = 0,
       aggregate.timeout = 0, aggregate.memout = 0, aggregate.abstained = 1 \<rparr>"

text \<open>
  One selected benchmark, and a solver with two result rows in its division: more rows
  than the total.
\<close>

definition excess_selection :: "selection list" where
  "excess_selection = [demo_benchmark 1 1 True]"

definition excess_results :: "answered list" where
  "excess_results = [demo_result ''A'' 1 1 Sat 0 1, demo_result ''A'' 1 1 Unsat 0 1]"

definition excess_d :: podium_row where
  "excess_d =
     collected_row demo_polars demo_defs demo_scoring demo_config excess_selection excess_results True (1, 1)"

definition excess_step :: PodiumStep where
  "excess_step =
     \<lparr> name = ''A'', competing = ''yes'', errorScore = 0, correctScore = 2, CPUScore = 4,
       WallScore = 2, PodiumStep.solved = 2, PodiumStep.solved_sat = 1,
       PodiumStep.solved_unsat = 1, PodiumStep.unsolved = 0,
       PodiumStep.abstained = 4294967295, PodiumStep.timeout = 0, PodiumStep.memout = 0 \<rparr>"

definition excess_podium :: PodiumDivision where
  "excess_podium =
     \<lparr> resultdate = ''2024-07-08'', year = 2024, divisions = ''divisions_2024'',
       participants = ''participants_2024'',
       PodiumDivision.disagreements = ''disagreements_2024'',
       PodiumDivision.division = ''Arith'', PodiumDivision.track = ''track_single_query'',
       n_benchmarks = 1, time_limit = 1200, mem_limit = 30000, logics = [(''QF_NIA'', 1)],
       winner_seq = ''A'', winner_par = ''A'', winner_sat = ''A'', winner_unsat = ''A'',
       winner_24s = ''A'', sequential = [excess_step], parallel = [excess_step],
       PodiumDivision.sat = [excess_step], PodiumDivision.unsat = [excess_step],
       PodiumDivision.twentyfour = [excess_step], layout = ''result'' \<rparr>"

text \<open>A solver whose identifier is the string \<^verbatim>\<open>-\<close>.\<close>

definition dash_results :: "answered list" where
  "dash_results = [demo_result ''-'' 1 1 Sat 0 1]"

definition dash_step :: PodiumStep where
  "dash_step =
     \<lparr> name = ''-'', competing = ''yes'', errorScore = 0, correctScore = 1, CPUScore = 2,
       WallScore = 1, PodiumStep.solved = 1, PodiumStep.solved_sat = 1,
       PodiumStep.solved_unsat = 0, PodiumStep.unsolved = 0,
       PodiumStep.abstained = 0, PodiumStep.timeout = 0, PodiumStep.memout = 0 \<rparr>"

definition dash_podium :: PodiumDivision where
  "dash_podium =
     \<lparr> resultdate = ''2024-07-08'', year = 2024, divisions = ''divisions_2024'',
       participants = ''participants_2024'',
       PodiumDivision.disagreements = ''disagreements_2024'',
       PodiumDivision.division = ''Arith'', PodiumDivision.track = ''track_single_query'',
       n_benchmarks = 1, time_limit = 1200, mem_limit = 30000, logics = [(''QF_NIA'', 1)],
       winner_seq = ''-'', winner_par = ''-'', winner_sat = ''-'', winner_unsat = ''-'',
       winner_24s = ''-'', sequential = [dash_step], parallel = [dash_step],
       PodiumDivision.sat = [dash_step], PodiumDivision.unsat = [dash_step],
       PodiumDivision.twentyfour = [dash_step], layout = ''result'' \<rparr>"

text \<open>
  Two selected benchmarks and a solver whose two error scores are \<open>- 2^63\<close> and \<open>- 1\<close>:
  their sum does not fit in 64 bits.
\<close>

definition overflow_selection :: "selection list" where
  "overflow_selection = [demo_benchmark 1 1 True, demo_benchmark 1 1 True]"

definition overflow_results :: "answered list" where
  "overflow_results =
     [demo_result ''A'' 1 1 Sat (- 9223372036854775808) 1, demo_result ''A'' 1 1 Unsat (- 1) 1]"

definition overflow_step :: PodiumStep where
  "overflow_step =
     \<lparr> name = ''A'', competing = ''yes'', errorScore = - 9223372036854775807,
       correctScore = 2, CPUScore = 4, WallScore = 2, PodiumStep.solved = 2,
       PodiumStep.solved_sat = 1, PodiumStep.solved_unsat = 1, PodiumStep.unsolved = 0,
       PodiumStep.abstained = 0, PodiumStep.timeout = 0, PodiumStep.memout = 0 \<rparr>"

definition overflow_podium :: PodiumDivision where
  "overflow_podium =
     \<lparr> resultdate = ''2024-07-08'', year = 2024, divisions = ''divisions_2024'',
       participants = ''participants_2024'',
       PodiumDivision.disagreements = ''disagreements_2024'',
       PodiumDivision.division = ''Arith'', PodiumDivision.track = ''track_single_query'',
       n_benchmarks = 2, time_limit = 1200, mem_limit = 30000, logics = [(''QF_NIA'', 2)],
       winner_seq = ''A'', winner_par = ''A'', winner_sat = ''A'', winner_unsat = ''A'',
       winner_24s = ''A'', sequential = [overflow_step], parallel = [overflow_step],
       PodiumDivision.sat = [overflow_step], PodiumDivision.unsat = [overflow_step],
       PodiumDivision.twentyfour = [overflow_step], layout = ''result'' \<rparr>"

text \<open>A result flagged as a disagreement, and a result of another track.\<close>

definition flagged_result :: answered where
  "flagged_result = (demo_result ''C'' 1 1 Sat 0 1)\<lparr>result.disagreements := True\<rparr>"

definition other_track_result :: answered where
  "other_track_result = (demo_result ''C'' 1 1 Sat 0 1)\<lparr>result.track := 1\<rparr>"

section \<open>Lemmas\<close>

subsection \<open>Groups, descending sort and joins\<close>

text \<open>The generic operations on frames.\<close>

lemma set_uniq: "set (uniq xs) = set xs"
  by (simp add: uniq_def)

lemma distinct_uniq: "distinct (uniq xs)"
  by (simp add: uniq_def)

lemma keys_pl_group_by: "map fst (pl_group_by key rows) = uniq (map key rows)"
  by (simp add: pl_group_by_def comp_def)

lemma distinct_pl_group_by: "distinct (map fst (pl_group_by key rows))"
  by (simp add: keys_pl_group_by distinct_uniq)

lemma in_pl_group_by:
  "(k, g) \<in> set (pl_group_by key rows) \<longleftrightarrow> k \<in> key ` set rows \<and> g = filter (\<lambda>r. key r = k) rows"
  by (auto simp: pl_group_by_def set_uniq)

lemma map_of_pl_group_by:
  "map_of (pl_group_by key rows) k =
     (if k \<in> key ` set rows then Some (filter (\<lambda>r. key r = k) rows) else None)"
proof (cases "k \<in> key ` set rows")
  case True
  then have "(k, filter (\<lambda>r. key r = k) rows) \<in> set (pl_group_by key rows)"
    by (simp add: in_pl_group_by)
  then show ?thesis
    using True distinct_pl_group_by [of key rows] by simp
next
  case False
  then have "k \<notin> fst ` set (pl_group_by key rows)"
    by (force simp: in_pl_group_by)
  then show ?thesis
    using False by (simp add: map_of_eq_None_iff)
qed

lemma groups_nonempty: "\<forall>x\<in>set (pl_group_by key rows). snd x \<noteq> []"
  by (auto simp: pl_group_by_def set_uniq filter_empty_conv)

lemma map_of_map_snd:
  "map_of (map (\<lambda>g. (fst g, f (snd g))) xs) k = map_option f (map_of xs k)"
  by (induction xs) auto

lemma set_insort_desc: "set (insort_desc key x xs) = insert x (set xs)"
  by (induction xs) auto

lemma mset_insort_desc: "mset (insort_desc key x xs) = add_mset x (mset xs)"
  by (induction xs) auto

lemma mset_sort_desc: "mset (sort_desc key xs) = mset xs"
  by (induction xs) (simp_all add: sort_desc_def mset_insort_desc)

lemma set_sort_desc: "set (sort_desc key xs) = set xs"
  using mset_sort_desc [of key xs] by (metis set_mset_mset)

lemma sorted_insort_desc:
  "sorted_wrt (\<lambda>a b. key b \<le> key a) xs \<Longrightarrow> sorted_wrt (\<lambda>a b. key b \<le> key a) (insort_desc key x xs)"
  by (induction xs) (auto simp: set_insort_desc)

lemma sorted_sort_desc: "sorted_wrt (\<lambda>a b. key b \<le> key a) (sort_desc key xs)"
  by (induction xs) (simp_all add: sort_desc_def sorted_insort_desc)

lemma distinct_map_sort_desc: "distinct (map f (sort_desc key xs)) = distinct (map f xs)"
proof -
  have "mset (map f (sort_desc key xs)) = mset (map f xs)"
    by (simp add: mset_sort_desc)
  then show ?thesis
    by (rule mset_eq_imp_distinct_iff)
qed

lemma sorted_wrt_strict:
  fixes key :: "'a \<Rightarrow> 'k::linorder"
  shows "sorted_wrt (\<lambda>a b. key b \<le> key a) xs \<Longrightarrow> distinct (map key xs)
     \<Longrightarrow> sorted_wrt (\<lambda>a b. key b < key a) xs"
proof (induction xs)
  case Nil
  then show ?case by simp
next
  case (Cons a xs)
  have "key x < key a" if "x \<in> set xs" for x
  proof -
    have "key x \<le> key a" using Cons.prems(1) that by simp
    moreover have "key a \<notin> key ` set xs" using Cons.prems(2) by simp
    then have "key x \<noteq> key a" using that by (metis imageI)
    ultimately show ?thesis by (simp add: less_le)
  qed
  with Cons show ?case by simp
qed

lemma strict_sort_desc:
  "distinct (map key xs) \<Longrightarrow> sorted_wrt (\<lambda>a b. key b < key a) (sort_desc key xs)"
  by (simp add: sorted_wrt_strict sorted_sort_desc distinct_map_sort_desc)

lemma strict_sorted_distinct:
  fixes key :: "'a \<Rightarrow> 'k::linorder"
  shows "sorted_wrt (\<lambda>a b. key b < key a) xs \<Longrightarrow> distinct (map key xs)"
  by (induction xs) auto

lemma distinct_map_comp: "distinct (map (h \<circ> f) xs) \<Longrightarrow> distinct (map f xs)"
  by (metis distinct_map map_map)

lemma filter_key_distinct:
  "distinct (map fst T) \<Longrightarrow>
     filter (\<lambda>kt. fst kt = k) T = (case map_of T k of None \<Rightarrow> [] | Some t \<Rightarrow> [(k, t)])"
proof (induction T)
  case Nil
  then show ?case by simp
next
  case (Cons a T)
  obtain k' t' where a: "a = (k', t')" by (cases a)
  show ?case
  proof (cases "k' = k")
    case True
    with Cons.prems a have "k \<notin> fst ` set T" by simp
    then have "filter (\<lambda>kt. fst kt = k) T = []"
      by (auto simp: filter_empty_conv)
    with True a show ?thesis by simp
  next
    case False
    with Cons a show ?thesis by simp
  qed
qed

lemma intersect_Nil: "intersect on [] T = []"
  by (simp add: intersect_def)

lemma intersect_Cons:
  "intersect on (r # R) T = map (\<lambda>kt. (r, snd kt)) (filter (\<lambda>kt. fst kt = on r) T) @ intersect on R T"
  by (simp add: intersect_def)

lemma map_fst_filter_intersect:
  assumes "distinct (map fst T)"
  shows "map fst (filter (\<lambda>rt. Q (fst rt)) (intersect on R T)) =
           filter (\<lambda>r. Q r \<and> on r \<in> fst ` set T) R"
proof (induction R)
  case Nil
  then show ?case by (simp add: intersect_Nil)
next
  case (Cons r R)
  show ?case
  proof (cases "map_of T (on r)")
    case None
    then have "on r \<notin> fst ` set T" by (simp add: map_of_eq_None_iff)
    with None Cons show ?thesis
      by (simp add: intersect_Cons filter_key_distinct [OF assms])
  next
    case (Some t)
    then have "on r \<in> fst ` set T" by (metis map_of_eq_None_iff option.distinct(1))
    with Some Cons show ?thesis
      by (simp add: intersect_Cons filter_key_distinct [OF assms])
  qed
qed

lemma in_intersect:
  "(r, t) \<in> set (intersect on R T) \<longleftrightarrow> r \<in> set R \<and> (on r, t) \<in> set T"
  by (force simp: intersect_def)

subsection \<open>Machine integers\<close>

text \<open>What the sums and the counts are as integers.\<close>

lemma sum_i64_exact:
  "- (2 ^ 63) \<le> sum_list xs \<Longrightarrow> sum_list xs < 2 ^ 63 \<Longrightarrow> sum_i64 xs = sum_list xs"
proof -
  assume "- (2 ^ 63) \<le> sum_list xs" and "sum_list xs < 2 ^ 63"
  then have "(sum_list xs + 9223372036854775808) mod 18446744073709551616
               = sum_list xs + 9223372036854775808"
    by (intro mod_pos_pos_trivial) auto
  then show ?thesis
    by (simp add: sum_i64_def)
qed

lemma uint_of_nat_u32: "n < 2 ^ 32 \<Longrightarrow> uint (of_nat n :: u32) = int n"
proof -
  assume "n < 2 ^ 32"
  then have "unat (of_nat n :: u32) = n"
    by (intro of_nat_inverse) simp_all
  then show ?thesis by (simp add: uint_nat)
qed

lemma uint_of_nat_diff: "uint (of_nat T - of_nat n :: u32) = (int T - int n) mod 2 ^ 32"
proof -
  have "(of_nat T - of_nat n :: u32) = word_of_int (int T - int n)"
    by simp
  then show ?thesis
    by (simp only: uint_word_of_int_eq take_bit_eq_mod) simp
qed

lemma uint_pl_count:
  "length rows < 2 ^ 32 \<Longrightarrow> uint (pl_count P rows) = int (length (filter P rows))"
proof -
  assume "length rows < 2 ^ 32"
  moreover have "length (filter P rows) \<le> length rows" by simp
  ultimately have "length (filter P rows) < 2 ^ 32" by (rule le_less_trans [rotated])
  then show ?thesis
    unfolding pl_count_def by (rule uint_of_nat_u32)
qed

lemma classified_sum:
  "\<forall>r\<in>set rows. classified sc r \<Longrightarrow>
     length (filter (known_answer sc) rows) + length (filter (unknown_answer sc) rows)
       + length (filter (timeout_answer sc) rows) + length (filter (memout_answer sc) rows)
     = length rows"
  by (induction rows) (auto simp: classified_def split: if_splits)

subsection \<open>Dictionaries\<close>

text \<open>A dictionary built from items with distinct keys is the list of the items.\<close>

lemma update_fresh: "k \<notin> fst ` set al \<Longrightarrow> AList.update k v al = al @ [(k, v)]"
  by (induction al) auto

lemma fold_update_distinct:
  "distinct (map fst (acc @ xs)) \<Longrightarrow>
     fold (\<lambda>kv. AList.update (fst kv) (snd kv)) xs acc = acc @ xs"
proof (induction xs arbitrary: acc)
  case Nil
  then show ?case by simp
next
  case (Cons x xs)
  from Cons.prems have "fst x \<notin> fst ` set acc" by auto
  then have "AList.update (fst x) (snd x) acc = acc @ [x]"
    by (simp add: update_fresh)
  moreover from Cons.prems have "distinct (map fst ((acc @ [x]) @ xs))" by simp
  ultimately show ?case
    using Cons.IH [of "acc @ [x]"] by simp
qed

lemma dict_distinct: "distinct (map fst xs) \<Longrightarrow> dict xs = xs"
  using fold_update_distinct [of "[]" xs] by (simp add: dict_def)

lemma dict_Nil: "dict [] = []"
  by (simp add: dict_def)

lemma set_update_subset: "set (AList.update k v al) \<subseteq> insert (k, v) (set al)"
  by (induction al) auto

lemma set_fold_update:
  "set (fold (\<lambda>kv. AList.update (fst kv) (snd kv)) xs acc) \<subseteq> set acc \<union> set xs"
proof (induction xs arbitrary: acc)
  case Nil
  then show ?case by simp
next
  case (Cons x xs)
  have "set (AList.update (fst x) (snd x) acc) \<subseteq> insert x (set acc)"
    using set_update_subset [of "fst x" "snd x" acc] by simp
  with Cons [of "AList.update (fst x) (snd x) acc"] show ?case
    by auto
qed

lemma set_dict: "set (dict xs) \<subseteq> set xs"
  using set_fold_update [of xs "[]"] by (simp add: dict_def)

text \<open>A lookup in a dictionary finds the last item of the key.\<close>

lemma map_of_fold_update:
  "map_of (fold (\<lambda>kv. AList.update (fst kv) (snd kv)) xs acc) = map_of (rev xs @ acc)"
proof (induction xs arbitrary: acc)
  case Nil
  then show ?case by simp
next
  case (Cons x xs)
  have "map_of (AList.update (fst x) (snd x) acc) = map_of (x # acc)"
    by (cases x) (simp add: update_conv' fun_eq_iff)
  then have "map_of (rev xs @ AList.update (fst x) (snd x) acc) = map_of (rev xs @ x # acc)"
    by (simp only: map_of_append)
  with Cons.IH [of "AList.update (fst x) (snd x) acc"] show ?case
    by simp
qed

lemma map_of_dict: "map_of (dict xs) = map_of (rev xs)"
  using map_of_fold_update [of xs "[]"] by (simp add: dict_def)

lemma map_of_dict_unique:
  assumes "(k, v) \<in> set xs" and "\<And>w. (k, w) \<in> set xs \<Longrightarrow> w = v"
  shows "map_of (dict xs) k = Some v"
proof -
  from assms(1) have "k \<in> fst ` set (rev xs)"
    by (metis fst_conv imageI set_rev)
  then obtain w where w: "map_of (rev xs) k = Some w"
    by (metis map_of_eq_None_iff not_None_eq)
  then have "(k, w) \<in> set xs"
    using map_of_SomeD [of "rev xs" k w] by simp
  then have "w = v" by (rule assms(2))
  with w show ?thesis by (simp add: map_of_dict)
qed

lemma sorted_fst:
  fixes xs :: "('a::linorder \<times> 'b::linorder) list"
  shows "sorted xs \<Longrightarrow> sorted (map fst xs)"
proof -
  assume "sorted xs"
  then have "sorted_wrt (\<lambda>x y. fst x \<le> fst y) xs"
    by (rule sorted_wrt_mono_rel [rotated]) (auto simp: less_eq_prod_def)
  then show ?thesis
    by (simp add: sorted_wrt_map)
qed

lemma dict_sort_dict:
  fixes xs :: "('a::linorder \<times> 'b::linorder) list"
  assumes "distinct (map fst xs)"
  shows "dict (sort (dict xs)) = sort xs"
    and "sorted_wrt (<) (map fst (sort xs))"
proof -
  have "mset (map fst (sort xs)) = mset (map fst xs)"
    by simp
  then have d: "distinct (map fst (sort xs))"
    using assms by (metis mset_eq_imp_distinct_iff)
  then show "dict (sort (dict xs)) = sort xs"
    by (simp add: dict_distinct assms)
  have "sorted (map fst (sort xs))"
    by (rule sorted_fst) simp
  with d show "sorted_wrt (<) (map fst (sort xs))"
    by (simp add: strict_sorted_iff)
qed

lemma sort_cong_set:
  fixes xs ys :: "'a::linorder list"
  assumes "distinct xs" and "distinct ys" and "set xs = set ys"
  shows "sort xs = sort ys"
proof -
  from assms have "mset xs = mset ys"
    by (simp add: set_eq_iff_mset_eq_distinct)
  then have "mset (sort ys) = mset xs" by simp
  then show ?thesis
    by (rule properties_for_sort) simp
qed

subsection \<open>Errors\<close>

lemma bind_error_Inr: "bind_error (Inr x) f = f x"
  by (simp add: bind_error_def)

lemma bind_error_eq_Inr:
  "bind_error m f = Inr y \<longleftrightarrow> (\<exists>x. m = Inr x \<and> f x = Inr y)"
  by (cases m) (simp_all add: bind_error_def)

lemma map_error_total:
  "(\<And>x. x \<in> set xs \<Longrightarrow> \<exists>y. f x = Inr y) \<Longrightarrow> \<exists>ys. map_error f xs = Inr ys"
proof (induction xs)
  case Nil
  then show ?case by simp
next
  case (Cons x xs)
  have "\<exists>y. f x = Inr y" by (rule Cons.prems) simp
  then obtain y where y: "f x = Inr y" by blast
  have "\<exists>ys. map_error f xs = Inr ys"
    by (rule Cons.IH) (rule Cons.prems, simp)
  then obtain ys where "map_error f xs = Inr ys" by blast
  with y show ?case by (simp add: bind_error_Inr)
qed

lemma map_error_Inr:
  "map_error f xs = Inr ys \<Longrightarrow> y \<in> set ys \<Longrightarrow> \<exists>x\<in>set xs. f x = Inr y"
proof (induction xs arbitrary: ys)
  case Nil
  then show ?case by simp
next
  case (Cons x xs)
  from Cons.prems(1) obtain z zs where z: "f x = Inr z" and zs: "map_error f xs = Inr zs"
    and ys: "ys = z # zs"
    by (auto simp: bind_error_eq_Inr)
  with Cons.prems(2) Cons.IH [OF zs] show ?case
    by auto
qed

lemma map_error_Inr_in:
  "map_error f xs = Inr ys \<Longrightarrow> x \<in> set xs \<Longrightarrow> \<exists>y\<in>set ys. f x = Inr y"
proof (induction xs arbitrary: ys)
  case Nil
  then show ?case by simp
next
  case (Cons a xs)
  from Cons.prems(1) obtain z zs where z: "f a = Inr z" and zs: "map_error f xs = Inr zs"
    and ys: "ys = z # zs"
    by (auto simp: bind_error_eq_Inr)
  with Cons.prems(2) Cons.IH [OF zs] show ?case
    by auto
qed

subsection \<open>The aggregation of a kind\<close>

text \<open>The rows of \<^const>\<open>info_for_podium_step\<close>: one aggregate for each solver with a row in a group of the totals, built from the rows of the solver in the group.\<close>

lemma agg_Some:
  "grp \<noteq> [] \<Longrightarrow> agg pl sc (gs, grp) = Some (fst gs, agg_row pl sc (snd gs) (snd (hd grp)) (map fst grp))"
  by (cases grp) simp_all

lemma solver_agg_row: "aggregate.solver (agg_row pl sc s t rows) = s"
  by (simp add: agg_row_def)

lemma map_filter_agg:
  "\<forall>x\<in>set G. snd x \<noteq> [] \<Longrightarrow>
     List.map_filter (agg pl sc) G =
       map (\<lambda>x. (fst (fst x), agg_row pl sc (snd (fst x)) (snd (hd (snd x))) (map fst (snd x)))) G"
proof (induction G)
  case Nil
  then show ?case by (simp add: List.map_filter_simps)
next
  case (Cons x G)
  obtain gs grp where x: "x = (gs, grp)" by (cases x)
  with Cons.prems have "grp \<noteq> []" by simp
  with Cons x show ?case
    by (simp add: List.map_filter_simps agg_Some)
qed

lemma aggregated_eq:
  "aggregated pl sc fd J =
     map (\<lambda>x. (fst (fst x), agg_row pl sc (snd (fst x)) (snd (hd (snd x))) (map fst (snd x))))
       (pl_group_by (solver_key fd) J)"
  unfolding aggregated_def by (rule map_filter_agg) (rule groups_nonempty)

lemma aggregated_keys:
  "map (\<lambda>ga. (fst ga, aggregate.solver (snd ga))) (aggregated pl sc fd J) = uniq (map (solver_key fd) J)"
  by (simp add: aggregated_eq comp_def solver_agg_row keys_pl_group_by [symmetric])

lemma in_aggregated:
  "(g, a) \<in> set (aggregated pl sc fd J) \<longleftrightarrow>
     (\<exists>s. (g, s) \<in> solver_key fd ` set J \<and>
          a = agg_row pl sc s (snd (hd (filter (\<lambda>rt. solver_key fd rt = (g, s)) J)))
                (map fst (filter (\<lambda>rt. solver_key fd rt = (g, s)) J)))"
proof
  assume "(g, a) \<in> set (aggregated pl sc fd J)"
  then obtain x where x: "x \<in> set (pl_group_by (solver_key fd) J)"
    and g: "g = fst (fst x)"
    and a: "a = agg_row pl sc (snd (fst x)) (snd (hd (snd x))) (map fst (snd x))"
    by (auto simp: aggregated_eq)
  obtain k grp where kg: "x = (k, grp)" by (cases x)
  with x have "k \<in> solver_key fd ` set J" and "grp = filter (\<lambda>rt. solver_key fd rt = k) J"
    by (simp_all add: in_pl_group_by)
  with g a kg show "\<exists>s. (g, s) \<in> solver_key fd ` set J \<and>
          a = agg_row pl sc s (snd (hd (filter (\<lambda>rt. solver_key fd rt = (g, s)) J)))
                (map fst (filter (\<lambda>rt. solver_key fd rt = (g, s)) J))"
    by (cases k) auto
next
  assume "\<exists>s. (g, s) \<in> solver_key fd ` set J \<and>
          a = agg_row pl sc s (snd (hd (filter (\<lambda>rt. solver_key fd rt = (g, s)) J)))
                (map fst (filter (\<lambda>rt. solver_key fd rt = (g, s)) J))"
  then obtain s where s: "(g, s) \<in> solver_key fd ` set J"
    and a: "a = agg_row pl sc s (snd (hd (filter (\<lambda>rt. solver_key fd rt = (g, s)) J)))
                (map fst (filter (\<lambda>rt. solver_key fd rt = (g, s)) J))"
    by blast
  from s have "((g, s), filter (\<lambda>rt. solver_key fd rt = (g, s)) J) \<in> set (pl_group_by (solver_key fd) J)"
    by (simp add: in_pl_group_by)
  then have "(\<lambda>x. (fst (fst x), agg_row pl sc (snd (fst x)) (snd (hd (snd x))) (map fst (snd x))))
               ((g, s), filter (\<lambda>rt. solver_key fd rt = (g, s)) J) \<in> set (aggregated pl sc fd J)"
    unfolding aggregated_eq set_map by (rule imageI)
  with a show "(g, a) \<in> set (aggregated pl sc fd J)" by simp
qed

lemma info_eq:
  "info_for_podium_step pl sc fd T kind config R =
     map (\<lambda>g. (fst g, map snd (snd g)))
       (pl_group_by fst (sort_desc (sort_columns sc)
          (aggregated pl sc fd (intersect (group_by fd) (filter_for sc kind config R) T))))"
  by (simp add: info_for_podium_step_def Let_def aggregated_def solver_key_def [abs_def])

lemma group_rows_intersect:
  assumes "distinct (map fst T)" and "g \<in> fst ` set T"
  shows "map fst (filter (\<lambda>rt. solver_key fd rt = (g, s)) (intersect (group_by fd) F T)) =
           solver_rows fd g s F"
proof -
  have "map fst (filter (\<lambda>rt. (\<lambda>r. (group_by fd r, result.solver r) = (g, s)) (fst rt))
                  (intersect (group_by fd) F T)) =
          filter (\<lambda>r. (group_by fd r, result.solver r) = (g, s) \<and> group_by fd r \<in> fst ` set T) F"
    by (rule map_fst_filter_intersect [OF assms(1)])
  also have "\<dots> = solver_rows fd g s F"
    using assms(2) by (auto simp: solver_rows_def intro: filter_cong)
  finally show ?thesis by (simp add: solver_key_def)
qed

lemma group_total_intersect:
  assumes "distinct (map fst T)"
    and "rt \<in> set (filter (\<lambda>rt. solver_key fd rt = (g, s)) (intersect (group_by fd) F T))"
  shows "map_of T g = Some (snd rt)"
proof -
  obtain r t where rt: "rt = (r, t)" by (cases rt)
  with assms(2) have "(g, t) \<in> set T"
    by (auto simp: in_intersect solver_key_def)
  with assms(1) rt show ?thesis by simp
qed

lemma in_keys_intersect:
  "(g, s) \<in> solver_key fd ` set (intersect (group_by fd) F T) \<longleftrightarrow>
     g \<in> fst ` set T \<and> solver_rows fd g s F \<noteq> []"
proof
  assume "(g, s) \<in> solver_key fd ` set (intersect (group_by fd) F T)"
  then obtain r t where "(r, t) \<in> set (intersect (group_by fd) F T)"
    and "group_by fd r = g" and "result.solver r = s"
    by (auto simp: solver_key_def)
  then have "r \<in> set F" and "(g, t) \<in> set T" and "group_by fd r = g \<and> result.solver r = s"
    by (simp_all add: in_intersect)
  then show "g \<in> fst ` set T \<and> solver_rows fd g s F \<noteq> []"
    by (force simp: solver_rows_def filter_empty_conv)
next
  assume a: "g \<in> fst ` set T \<and> solver_rows fd g s F \<noteq> []"
  then obtain t where t: "(g, t) \<in> set T" by auto
  from a obtain r where r: "r \<in> set F" "group_by fd r = g" "result.solver r = s"
    by (auto simp: solver_rows_def filter_empty_conv)
  with t have "(r, t) \<in> set (intersect (group_by fd) F T)"
    by (simp add: in_intersect)
  moreover have "solver_key fd (r, t) = (g, s)"
    using r by (simp add: solver_key_def)
  ultimately show "(g, s) \<in> solver_key fd ` set (intersect (group_by fd) F T)"
    by (metis imageI)
qed

lemma in_aggregated_intersect:
  assumes "distinct (map fst T)"
  shows "(g, a) \<in> set (aggregated pl sc fd (intersect (group_by fd) F T)) \<longleftrightarrow>
           (\<exists>s t. map_of T g = Some t \<and> solver_rows fd g s F \<noteq> [] \<and>
                  a = agg_row pl sc s t (solver_rows fd g s F))"
proof -
  let ?J = "intersect (group_by fd) F T"
  have *: "agg_row pl sc s (snd (hd (filter (\<lambda>rt. solver_key fd rt = (g, s)) ?J)))
               (map fst (filter (\<lambda>rt. solver_key fd rt = (g, s)) ?J))
           = agg_row pl sc s t (solver_rows fd g s F)"
    if "map_of T g = Some t" and "solver_rows fd g s F \<noteq> []" for s t
  proof -
    from that(1) have gT: "g \<in> fst ` set T"
      by (metis map_of_eq_None_iff option.distinct(1))
    have rows: "map fst (filter (\<lambda>rt. solver_key fd rt = (g, s)) ?J) = solver_rows fd g s F"
      by (rule group_rows_intersect [OF assms gT])
    with that(2) have "filter (\<lambda>rt. solver_key fd rt = (g, s)) ?J \<noteq> []"
      by auto
    then have "hd (filter (\<lambda>rt. solver_key fd rt = (g, s)) ?J)
                 \<in> set (filter (\<lambda>rt. solver_key fd rt = (g, s)) ?J)"
      by (rule hd_in_set)
    then have "map_of T g = Some (snd (hd (filter (\<lambda>rt. solver_key fd rt = (g, s)) ?J)))"
      by (rule group_total_intersect [OF assms])
    with that(1) rows show ?thesis by simp
  qed
  show ?thesis
  proof
    assume "(g, a) \<in> set (aggregated pl sc fd ?J)"
    then obtain s where s: "(g, s) \<in> solver_key fd ` set ?J"
      and a: "a = agg_row pl sc s (snd (hd (filter (\<lambda>rt. solver_key fd rt = (g, s)) ?J)))
                (map fst (filter (\<lambda>rt. solver_key fd rt = (g, s)) ?J))"
      unfolding in_aggregated by blast
    from s have gT: "g \<in> fst ` set T" and ne: "solver_rows fd g s F \<noteq> []"
      by (simp_all add: in_keys_intersect)
    from gT obtain t where t: "map_of T g = Some t"
      by (metis map_of_eq_None_iff not_None_eq)
    from a * [OF t ne] t ne
    show "\<exists>s t. map_of T g = Some t \<and> solver_rows fd g s F \<noteq> [] \<and>
                  a = agg_row pl sc s t (solver_rows fd g s F)"
      by blast
  next
    assume "\<exists>s t. map_of T g = Some t \<and> solver_rows fd g s F \<noteq> [] \<and>
                  a = agg_row pl sc s t (solver_rows fd g s F)"
    then obtain s t where t: "map_of T g = Some t" and ne: "solver_rows fd g s F \<noteq> []"
      and a: "a = agg_row pl sc s t (solver_rows fd g s F)"
      by blast
    from t have "g \<in> fst ` set T"
      by (metis map_of_eq_None_iff option.distinct(1))
    with ne have "(g, s) \<in> solver_key fd ` set ?J"
      by (simp add: in_keys_intersect)
    with a * [OF t ne] show "(g, a) \<in> set (aggregated pl sc fd ?J)"
      unfolding in_aggregated by auto
  qed
qed

lemma distinct_sort_columns: "distinct (map (sort_columns sc) (aggregated pl sc fd J))"
proof -
  have "(\<lambda>ga. (fst ga, aggregate.solver (snd ga))) = (\<lambda>k. (fst k, snd (snd k))) \<circ> sort_columns sc"
    by (auto simp: sort_columns_def rank_key_def)
  then have "distinct (map ((\<lambda>k. (fst k, snd (snd k))) \<circ> sort_columns sc) (aggregated pl sc fd J))"
    using aggregated_keys [of pl sc fd J] distinct_uniq [of "map (solver_key fd) J"] by metis
  then show ?thesis by (rule distinct_map_comp)
qed

lemma map_of_info:
  "map_of (info_for_podium_step pl sc fd T kind config R) g =
     (if ranked pl sc fd T kind config R g = [] then None else Some (ranked pl sc fd T kind config R g))"
proof -
  let ?S = "sort_desc (sort_columns sc)
              (aggregated pl sc fd (intersect (group_by fd) (filter_for sc kind config R) T))"
  have "map_of (info_for_podium_step pl sc fd T kind config R) g =
          map_option (map snd) (map_of (pl_group_by fst ?S) g)"
    unfolding info_eq by (rule map_of_map_snd)
  also have "\<dots> = (if g \<in> fst ` set ?S then Some (ranked pl sc fd T kind config R g) else None)"
    by (simp add: map_of_pl_group_by ranked_def)
  also have "\<dots> = (if ranked pl sc fd T kind config R g = [] then None
                    else Some (ranked pl sc fd T kind config R g))"
    by (auto simp: ranked_def filter_empty_conv)
  finally show ?thesis .
qed

lemma distinct_info: "distinct (map fst (info_for_podium_step pl sc fd T kind config R))"
  unfolding info_eq by (simp add: comp_def keys_pl_group_by distinct_uniq)

lemma set_ranked:
  assumes "distinct (map fst T)"
  shows "a \<in> set (ranked pl sc fd T kind config R g) \<longleftrightarrow>
           (\<exists>s t. map_of T g = Some t \<and> solver_rows fd g s (filter_for sc kind config R) \<noteq> [] \<and>
                  a = agg_row pl sc s t (solver_rows fd g s (filter_for sc kind config R)))"
proof -
  have "a \<in> set (ranked pl sc fd T kind config R g) \<longleftrightarrow>
          (g, a) \<in> set (aggregated pl sc fd (intersect (group_by fd) (filter_for sc kind config R) T))"
    by (force simp: ranked_def set_sort_desc)
  then show ?thesis
    by (simp add: in_aggregated_intersect [OF assms])
qed

lemma sorted_ranked:
  "sorted_wrt (\<lambda>a b. rank_key sc b < rank_key sc a) (ranked pl sc fd T kind config R g)"
proof -
  let ?S = "sort_desc (sort_columns sc)
              (aggregated pl sc fd (intersect (group_by fd) (filter_for sc kind config R) T))"
  have "sorted_wrt (\<lambda>x y. sort_columns sc y < sort_columns sc x) ?S"
    by (rule strict_sort_desc) (rule distinct_sort_columns)
  then have "sorted_wrt (\<lambda>x y. sort_columns sc y < sort_columns sc x) (filter (\<lambda>ga. fst ga = g) ?S)"
    by (rule sorted_wrt_filter)
  then have "sorted_wrt (\<lambda>x y. rank_key sc (snd y) < rank_key sc (snd x)) (filter (\<lambda>ga. fst ga = g) ?S)"
    by (rule sorted_wrt_mono_rel [rotated]) (auto simp: sort_columns_def)
  then show ?thesis
    by (simp add: ranked_def sorted_wrt_map)
qed

subsection \<open>The totals and the logics of the divisions\<close>

lemma distinct_len_by_division: "distinct (map fst (len_by_division fd S))"
  by (simp add: len_by_division_def comp_def keys_pl_group_by distinct_uniq)

lemma map_of_len_by_division:
  "map_of (len_by_division fd S) g =
     (if g \<in> group_by fd ` set S then Some (pl_len (filter (\<lambda>b. group_by fd b = g) S)) else None)"
  unfolding len_by_division_def map_of_map_snd by (simp add: map_of_pl_group_by)

lemma keys_len_by_division: "fst ` set (len_by_division fd S) = group_by fd ` set S"
proof -
  have "set (map fst (len_by_division fd S)) = group_by fd ` set S"
    unfolding len_by_division_def by (simp add: comp_def keys_pl_group_by set_uniq)
  then show ?thesis by simp
qed

lemma in_len_by_division:
  assumes "kt \<in> set (len_by_division fd (filter selected selection))"
  shows "snd kt = of_nat (total_of fd selection (fst kt))"
    and "0 < total_of fd selection (fst kt)"
    and "map_of (len_by_division fd (filter selected selection)) (fst kt) = Some (snd kt)"
proof -
  let ?S = "filter selected selection"
  obtain g t where kt: "kt = (g, t)" by (cases kt)
  with assms have m: "map_of (len_by_division fd ?S) g = Some t"
    using distinct_len_by_division [of fd ?S] by simp
  then have g: "g \<in> group_by fd ` set ?S" and t: "t = pl_len (filter (\<lambda>b. group_by fd b = g) ?S)"
    by (simp_all add: map_of_len_by_division split: if_splits)
  have len: "length (filter (\<lambda>b. group_by fd b = g) ?S) = total_of fd selection g"
    by (simp add: total_of_def)
  from t len kt show "snd kt = of_nat (total_of fd selection (fst kt))"
    by (simp add: pl_len_def)
  from g have "filter (\<lambda>b. group_by fd b = g) ?S \<noteq> []"
    by (auto simp: filter_empty_conv)
  with len kt show "0 < total_of fd selection (fst kt)"
    by (metis fst_conv length_greater_0_conv)
  from m kt show "map_of (len_by_division fd (filter selected selection)) (fst kt) = Some (snd kt)"
    by simp
qed

lemma distinct_lf_logics: "distinct (map fst (lf_logics S))"
  by (simp add: lf_logics_def comp_def keys_pl_group_by distinct_uniq)

lemma keys_lf_logics: "fst ` set (lf_logics S) = benchmark.division ` set S"
proof -
  let ?G = "pl_group_by (\<lambda>r. (benchmark.division r, logic r)) S"
  have "map fst (lf_logics S) = uniq (map (\<lambda>g. fst (fst g)) ?G)"
    unfolding lf_logics_def by (simp add: comp_def keys_pl_group_by)
  then have "set (map fst (lf_logics S)) = (\<lambda>g. fst (fst g)) ` set ?G"
    by (simp add: set_uniq)
  also have "\<dots> = fst ` set (map fst ?G)"
    by (simp add: image_image)
  also have "\<dots> = fst ` (\<lambda>r. (benchmark.division r, logic r)) ` set S"
    by (simp only: keys_pl_group_by set_uniq set_map)
  also have "\<dots> = benchmark.division ` set S"
    by (simp add: image_image)
  finally show ?thesis by simp
qed

lemma map_of_lf_logics:
  "map_of (lf_logics S) g =
     (if g \<in> benchmark.division ` set S
      then Some (map (\<lambda>k. (snd k, pl_len (filter (\<lambda>b. (benchmark.division b, logic b) = k) S)))
                  (filter (\<lambda>k. fst k = g) (uniq (map (\<lambda>b. (benchmark.division b, logic b)) S))))
      else None)"
proof -
  let ?key = "\<lambda>b. (benchmark.division b, logic b)"
  let ?X = "map (\<lambda>grp. (fst (fst grp), (snd (fst grp), pl_len (snd grp)))) (pl_group_by ?key S)"
  have "map_of (lf_logics S) g = map_option (map snd) (map_of (pl_group_by fst ?X) g)"
    unfolding lf_logics_def by (rule map_of_map_snd)
  also have "\<dots> = (if g \<in> fst ` set ?X then Some (map snd (filter (\<lambda>x. fst x = g) ?X)) else None)"
    by (simp add: map_of_pl_group_by)
  also have "fst ` set ?X = benchmark.division ` set S"
    by (force simp: in_pl_group_by pl_group_by_def set_uniq)
  also have "map snd (filter (\<lambda>x. fst x = g) ?X) =
      map (\<lambda>k. (snd k, pl_len (filter (\<lambda>b. ?key b = k) S)))
        (filter (\<lambda>k. fst k = g) (uniq (map ?key S)))"
    by (simp add: pl_group_by_def filter_map comp_def)
  finally show ?thesis .
qed

lemma set_division_logics:
  "set (division_logics selection g) =
     logic ` {b \<in> set selection. selected b \<and> benchmark.division b = g}"
  by (auto simp: division_logics_def set_uniq)

lemma logic_keys:
  fixes S :: "selection list"
  defines "K \<equiv> \<lambda>g. filter (\<lambda>k. fst k = g) (uniq (map (\<lambda>b. (benchmark.division b, logic b)) S))"
  shows "distinct (map snd (K g))"
    and "set (map snd (K g)) = logic ` {b \<in> set S. benchmark.division b = g}"
    and "k \<in> set (K g) \<Longrightarrow> k = (g, snd k)"
proof -
  have d: "distinct (K g)"
    unfolding K_def by (simp add: distinct_uniq)
  have "inj_on snd (set (K g))"
    by (rule inj_onI) (auto simp: K_def)
  with d show "distinct (map snd (K g))"
    by (simp add: distinct_map)
  show "set (map snd (K g)) = logic ` {b \<in> set S. benchmark.division b = g}"
    unfolding K_def by (force simp: set_uniq)
  show "k \<in> set (K g) \<Longrightarrow> k = (g, snd k)"
    unfolding K_def by auto
qed

lemma breakdown_items:
  assumes "length selection < 2 ^ 32"
  shows "map (\<lambda>d2. (f (fst d2), uint (snd d2)))
           (map (\<lambda>k. (snd k, pl_len (filter (\<lambda>b. (benchmark.division b, logic b) = k)
                                       (filter selected selection))))
              (filter (\<lambda>k. fst k = g)
                 (uniq (map (\<lambda>b. (benchmark.division b, logic b)) (filter selected selection)))))
         = map (\<lambda>l. (f l, int (logic_count selection g l)))
             (map snd (filter (\<lambda>k. fst k = g)
                 (uniq (map (\<lambda>b. (benchmark.division b, logic b)) (filter selected selection)))))"
proof -
  have "uint (pl_len (filter (\<lambda>b. (benchmark.division b, logic b) = k) (filter selected selection)))
          = int (logic_count selection g (snd k))"
    if "k \<in> set (filter (\<lambda>k. fst k = g)
                 (uniq (map (\<lambda>b. (benchmark.division b, logic b)) (filter selected selection))))"
    for k
  proof -
    from that have k: "k = (g, snd k)" by (rule logic_keys(3))
    have "filter (\<lambda>b. (benchmark.division b, logic b) = k) (filter selected selection)
            = filter (\<lambda>b. selected b \<and> benchmark.division b = g \<and> logic b = snd k) selection"
      by (subst k) (simp add: conj_commute)
    then have len: "length (filter (\<lambda>b. (benchmark.division b, logic b) = k) (filter selected selection))
                 = logic_count selection g (snd k)"
      by (simp add: logic_count_def)
    have "logic_count selection g (snd k) \<le> length selection"
      by (simp add: logic_count_def)
    with assms have "logic_count selection g (snd k) < 2 ^ 32" by simp
    then show ?thesis
      unfolding pl_len_def len by (rule uint_of_nat_u32)
  qed
  then show ?thesis by simp
qed

subsection \<open>The collected frame\<close>

text \<open>No join fails its validation: the frame has one row for each group of the totals.\<close>

lemma all_Kind:
  "(\<forall>k. P k) \<longleftrightarrow> P Kind.seq \<and> P Kind.par \<and> P Kind.sat \<and> P Kind.unsat \<and> P Kind.twentyfour"
  by (metis Kind.exhaust)

lemma sq_collect_eq:
  "sq_collect pl ds sc config selection results fd =
     Inr (map (collected_row pl ds sc config selection results fd)
            (len_by_division fd (filter selected selection)))"
proof -
  let ?T = "len_by_division fd (filter selected selection)"
  have dT: "distinct (map fst ?T)" by (rule distinct_len_by_division)
  show ?thesis
  proof (cases fd)
    case True
    then show ?thesis
      unfolding sq_collect_def Let_def all_kinds_def
      by (simp add: bind_error_Inr join_left_def comp_def distinct_len_by_division distinct_info
            distinct_lf_logics collected_row_def fun_eq_iff all_Kind)
  next
    case False
    then show ?thesis
      unfolding sq_collect_def Let_def all_kinds_def
      by (simp add: bind_error_Inr join_left_def comp_def distinct_len_by_division distinct_info
            collected_row_def fun_eq_iff all_Kind)
  qed
qed

lemma in_collect:
  assumes "sq_collect pl ds sc config selection results fd = Inr df" and "d \<in> set df"
  shows "d_kind d kind =
           (if ranked pl sc fd (len_by_division fd (filter selected selection)) kind config
                 (filter (\<lambda>r. result.track r = SingleQuery ds) results) (d_group d) = []
            then None
            else Some (ranked pl sc fd (len_by_division fd (filter selected selection)) kind config
                 (filter (\<lambda>r. result.track r = SingleQuery ds) results) (d_group d)))"
    and "map_of (len_by_division fd (filter selected selection)) (d_group d) = Some (d_total d)"
    and "d_total d = of_nat (total_of fd selection (d_group d))"
    and "0 < total_of fd selection (d_group d)"
    and "fd \<Longrightarrow> d_logics d = map_of (lf_logics (filter selected selection)) (d_group d)"
    and "fd \<Longrightarrow> d_logics d \<noteq> None"
proof -
  from assms obtain kt where kt: "kt \<in> set (len_by_division fd (filter selected selection))"
    and d: "d = collected_row pl ds sc config selection results fd kt"
    by (auto simp: sq_collect_eq)
  from d have g: "d_group d = fst kt" and t: "d_total d = snd kt"
    by (simp_all add: collected_row_def)
  from d show "d_kind d kind =
           (if ranked pl sc fd (len_by_division fd (filter selected selection)) kind config
                 (filter (\<lambda>r. result.track r = SingleQuery ds) results) (d_group d) = []
            then None
            else Some (ranked pl sc fd (len_by_division fd (filter selected selection)) kind config
                 (filter (\<lambda>r. result.track r = SingleQuery ds) results) (d_group d)))"
    by (simp add: collected_row_def map_of_info)
  from in_len_by_division [OF kt] g t
  show "map_of (len_by_division fd (filter selected selection)) (d_group d) = Some (d_total d)"
    and "d_total d = of_nat (total_of fd selection (d_group d))"
    and "0 < total_of fd selection (d_group d)"
    by simp_all
  from d show l: "d_logics d = map_of (lf_logics (filter selected selection)) (d_group d)" if fd
    using that by (simp add: collected_row_def)
  show "d_logics d \<noteq> None" if fd
  proof -
    from kt have "fst kt \<in> group_by fd ` set (filter selected selection)"
      using keys_len_by_division [of fd "filter selected selection"] by (metis imageI)
    with that have "fst kt \<in> benchmark.division ` set (filter selected selection)"
      by (simp add: group_by_def [abs_def])
    then have "fst kt \<in> fst ` set (lf_logics (filter selected selection))"
      by (simp add: keys_lf_logics)
    then have "map_of (lf_logics (filter selected selection)) (fst kt) \<noteq> None"
      by (simp add: map_of_eq_None_iff)
    with l [OF that] g show ?thesis by simp
  qed
qed

lemma collect_has_group:
  assumes "g \<in> group_by fd ` set (filter selected selection)"
  shows "\<exists>d \<in> set (map (collected_row pl ds sc config selection results fd)
                      (len_by_division fd (filter selected selection))). d_group d = g"
proof -
  from assms have "g \<in> fst ` set (len_by_division fd (filter selected selection))"
    by (simp add: keys_len_by_division)
  then obtain kt where "kt \<in> set (len_by_division fd (filter selected selection))" and "fst kt = g"
    by auto
  then have "collected_row pl ds sc config selection results fd kt
               \<in> set (map (collected_row pl ds sc config selection results fd)
                      (len_by_division fd (filter selected selection)))"
    and "d_group (collected_row pl ds sc config selection results fd kt) = g"
    by (simp, simp add: collected_row_def)
  then show ?thesis by blast
qed

lemma collect_group_unique:
  assumes "sq_collect pl ds sc config selection results fd = Inr df"
    and "d \<in> set df" and "d' \<in> set df" and "d_group d' = d_group d"
  shows "d' = d"
proof -
  let ?T = "len_by_division fd (filter selected selection)"
  from assms(1,2) obtain kt where kt: "kt \<in> set ?T"
    and d: "d = collected_row pl ds sc config selection results fd kt"
    by (auto simp: sq_collect_eq)
  from assms(1,3) obtain kt' where kt': "kt' \<in> set ?T"
    and d': "d' = collected_row pl ds sc config selection results fd kt'"
    by (auto simp: sq_collect_eq)
  from d d' assms(4) have "fst kt' = fst kt"
    by (simp add: collected_row_def)
  moreover have "distinct (map fst ?T)" by (rule distinct_len_by_division)
  ultimately have "kt' = kt"
    using kt kt' by (metis eq_key_imp_eq_value prod.collapse)
  with d d' show ?thesis by simp
qed

lemma collect_group_in:
  assumes "sq_collect pl ds sc config selection results fd = Inr df" and "d \<in> set df"
  shows "d_group d \<in> fst ` set (len_by_division fd (filter selected selection))"
proof -
  from assms obtain kt where kt: "kt \<in> set (len_by_division fd (filter selected selection))"
    and d: "d = collected_row pl ds sc config selection results fd kt"
    by (auto simp: sq_collect_eq)
  from d have "d_group d = fst kt" by (simp add: collected_row_def)
  with kt show ?thesis by (metis imageI)
qed

lemma podium_steps_collect:
  assumes "sq_collect pl ds sc config selection results fd = Inr df" and "d \<in> set df"
  shows "podium_steps (d_kind d kind) =
           map podium_step (ranked pl sc fd (len_by_division fd (filter selected selection)) kind config
                 (filter (\<lambda>r. result.track r = SingleQuery ds) results) (d_group d))"
  using in_collect(1) [OF assms, of kind] by (simp add: podium_steps_def)

subsection \<open>The records\<close>

text \<open>No record fails to be built from a row of the collected frame, so that the run returns its dictionary; every record of the dictionary is built from a row of the collected frame.\<close>

lemma make_podium_Inr:
  assumes "make_podium ds config d fd = Inr p"
  shows "ranked_of k p = podium_steps (d_kind d k)"
    and "get_winner (d_kind d k) = Inr (winner_of k p)"
    and "n_benchmarks p = uint (d_total d)"
    and "\<not> fd \<Longrightarrow> logics p = dict (sort (dict []))"
    and "fd \<Longrightarrow> \<exists>l. d_logics d = Some l \<and>
           logics p = dict (sort (dict (map (\<lambda>d2. (Logic_name_of_int ds (fst d2), uint (snd d2))) l)))"
proof -
  from assms obtain dl w_seq w_par w_sat w_unsat w_24s where
    dl: "(if fd then
          (case d_logics d of
             None \<Rightarrow> Inl TypeError
           | Some l \<Rightarrow>
               Inr (Division_name_of_int ds (d_group d),
                    dict (map (\<lambda>d2. (Logic_name_of_int ds (fst d2), uint (snd d2))) l)))
        else Inr (Logic_name_of_int ds (d_group d), dict [])) = Inr dl"
    and w: "get_winner (d_kind d Kind.seq) = Inr w_seq"
      "get_winner (d_kind d Kind.par) = Inr w_par"
      "get_winner (d_kind d Kind.sat) = Inr w_sat"
      "get_winner (d_kind d Kind.unsat) = Inr w_unsat"
      "get_winner (d_kind d Kind.twentyfour) = Inr w_24s"
    and p: "p = \<lparr> resultdate = ''2024-07-08'',
             year = current_year config,
             divisions = ''divisions_'' @ str_int (current_year config),
             participants = ''participants_'' @ str_int (current_year config),
             PodiumDivision.disagreements = ''disagreements_'' @ str_int (current_year config),
             PodiumDivision.division = fst dl,
             PodiumDivision.track = ''track_single_query'',
             n_benchmarks = uint (d_total d),
             time_limit = timelimit_s config,
             mem_limit = memlimit_M config,
             logics = dict (sort (snd dl)),
             winner_seq = w_seq,
             winner_par = w_par,
             winner_sat = w_sat,
             winner_unsat = w_unsat,
             winner_24s = w_24s,
             sequential = podium_steps (d_kind d Kind.seq),
             parallel = podium_steps (d_kind d Kind.par),
             PodiumDivision.sat = podium_steps (d_kind d Kind.sat),
             PodiumDivision.unsat = podium_steps (d_kind d Kind.unsat),
             PodiumDivision.twentyfour = podium_steps (d_kind d Kind.twentyfour),
             layout = ''result'' \<rparr>"
    unfolding make_podium_def bind_error_eq_Inr by (elim exE conjE) (simp only: sum.inject)
  show "ranked_of k p = podium_steps (d_kind d k)"
    using p by (cases k) simp_all
  show "get_winner (d_kind d k) = Inr (winner_of k p)"
    using p w by (cases k) simp_all
  show "n_benchmarks p = uint (d_total d)"
    using p by simp
  show "logics p = dict (sort (dict []))" if "\<not> fd"
    using p dl that by auto
  show "\<exists>l. d_logics d = Some l \<and>
           logics p = dict (sort (dict (map (\<lambda>d2. (Logic_name_of_int ds (fst d2), uint (snd d2))) l)))"
    if fd
    using p dl that by (auto split: option.splits)
qed

lemma make_podium_total:
  assumes "\<And>k. d_kind d k \<noteq> Some []" and "fd \<Longrightarrow> d_logics d \<noteq> None"
  shows "\<exists>p. make_podium ds config d fd = Inr p"
proof -
  have "\<exists>w. get_winner (d_kind d k) = Inr w" for k
    using assms(1) [of k] by (auto simp: get_winner_def split: option.splits list.splits)
  then obtain w where w: "\<And>k. get_winner (d_kind d k) = Inr (w k)"
    by metis
  show ?thesis
    using assms(2) by (cases fd) (auto simp: make_podium_def w bind_error_Inr)
qed

lemma make_podium_collect:
  assumes "sq_collect pl ds sc config selection results fd = Inr df" and "d \<in> set df"
  shows "\<exists>p. make_podium ds config d fd = Inr p"
proof (rule make_podium_total)
  fix k show "d_kind d k \<noteq> Some []"
    using in_collect(1) [OF assms, of k] by (simp split: if_splits)
next
  assume fd then show "d_logics d \<noteq> None"
    by (rule in_collect(6) [OF assms])
qed

lemma sq_generate_datas_total:
  "\<exists>m. sq_generate_datas pl ds sc config selection results fd = Inr m"
proof -
  obtain df where df: "sq_collect pl ds sc config selection results fd = Inr df"
    by (simp add: sq_collect_eq)
  have "\<exists>y. bind_error (make_podium ds config d fd)
                 (\<lambda>p. Inr (name_of_int ds fd (d_group d), p)) = Inr y" if "d \<in> set df" for d
    using make_podium_collect [OF df that] by (auto simp: bind_error_Inr)
  then have "\<exists>items. map_error
          (\<lambda>d. bind_error (make_podium ds config d fd)
                 (\<lambda>p. Inr (name_of_int ds fd (d_group d), p))) df = Inr items"
    by (rule map_error_total)
  then obtain items where "map_error
          (\<lambda>d. bind_error (make_podium ds config d fd)
                 (\<lambda>p. Inr (name_of_int ds fd (d_group d), p))) df = Inr items"
    by blast
  with df show ?thesis
    by (simp add: sq_generate_datas_def bind_error_Inr)
qed

lemma export_results_total:
  "\<exists>w. export_results pl ds sc config selection results = (w, None)"
proof -
  let ?R = "filter (\<lambda>r. \<not> result.disagreements r) results"
  obtain m1 where m1: "sq_generate_datas pl ds sc config selection ?R True = Inr m1"
    using sq_generate_datas_total by blast
  obtain m2 where m2: "sq_generate_datas pl ds sc config selection ?R False = Inr m2"
    using sq_generate_datas_total by blast
  show ?thesis
    by (simp add: export_results_def m1 m2)
qed

lemma sq_generate_datas_records:
  assumes "sq_generate_datas pl ds sc config selection results fd = Inr m"
    and "(n, p) \<in> set m"
  shows "\<exists>df d. sq_collect pl ds sc config selection results fd = Inr df \<and> d \<in> set df
           \<and> make_podium ds config d fd = Inr p \<and> n = name_of_int ds fd (d_group d)"
proof -
  from assms(1) obtain df items where df: "sq_collect pl ds sc config selection results fd = Inr df"
    and items: "map_error
          (\<lambda>d. bind_error (make_podium ds config d fd)
                 (\<lambda>p. Inr (name_of_int ds fd (d_group d), p))) df = Inr items"
    and m: "m = dict items"
    by (auto simp: sq_generate_datas_def bind_error_eq_Inr)
  from assms(2) m have "(n, p) \<in> set items"
    using set_dict [of items] by auto
  from map_error_Inr [OF items this] obtain d where d: "d \<in> set df"
    and "bind_error (make_podium ds config d fd)
                 (\<lambda>p. Inr (name_of_int ds fd (d_group d), p)) = Inr (n, p)"
    by blast
  then have "make_podium ds config d fd = Inr p \<and> n = name_of_int ds fd (d_group d)"
    by (auto simp: bind_error_eq_Inr)
  with df d show ?thesis by blast
qed

text \<open>The record of a row is found under the name of its group when no other group has the name.\<close>

lemma sq_generate_datas_lookup:
  assumes "sq_collect pl ds sc config selection results fd = Inr df"
    and "d \<in> set df"
    and "make_podium ds config d fd = Inr p"
    and "\<forall>g'\<in>fst ` set (len_by_division fd (filter selected selection)).
           name_of_int ds fd g' = name_of_int ds fd (d_group d) \<longrightarrow> g' = d_group d"
  shows "\<exists>m. sq_generate_datas pl ds sc config selection results fd = Inr m
           \<and> map_of m (name_of_int ds fd (d_group d)) = Some p"
proof -
  let ?f = "\<lambda>d. bind_error (make_podium ds config d fd)
                 (\<lambda>p. Inr (name_of_int ds fd (d_group d), p))"
  have "\<exists>y. ?f d = Inr y" if "d \<in> set df" for d
    using make_podium_collect [OF assms(1) that] by (auto simp: bind_error_Inr)
  then have "\<exists>items. map_error ?f df = Inr items"
    by (rule map_error_total)
  then obtain items where items: "map_error ?f df = Inr items"
    by blast
  then have m: "sq_generate_datas pl ds sc config selection results fd = Inr (dict items)"
    using assms(1) by (simp add: sq_generate_datas_def bind_error_Inr)
  from map_error_Inr_in [OF items assms(2)] assms(3)
  have 1: "(name_of_int ds fd (d_group d), p) \<in> set items"
    by (simp add: bind_error_Inr)
  have 2: "w = p" if "(name_of_int ds fd (d_group d), w) \<in> set items" for w
  proof -
    from map_error_Inr [OF items that] obtain d' where d': "d' \<in> set df"
      and "?f d' = Inr (name_of_int ds fd (d_group d), w)"
      by blast
    then have w: "make_podium ds config d' fd = Inr w"
      and n: "name_of_int ds fd (d_group d') = name_of_int ds fd (d_group d)"
      by (auto simp: bind_error_eq_Inr)
    from collect_group_in [OF assms(1) d'] n assms(4) have "d_group d' = d_group d"
      by blast
    then have "d' = d"
      by (rule collect_group_unique [OF assms(1,2) d'])
    with w assms(3) show ?thesis by simp
  qed
  from 1 2 have "map_of (dict items) (name_of_int ds fd (d_group d)) = Some p"
    by (rule map_of_dict_unique)
  with m show ?thesis by blast
qed

lemma ranked_entry:
  assumes "sq_collect pl ds sc config selection results fd = Inr df" and "d \<in> set df"
    and "make_podium ds config d fd = Inr p" and "st \<in> set (ranked_of kind p)"
  shows "st = podium_step (agg_row pl sc (name st) (of_nat (total_of fd selection (d_group d)))
                (solver_rows fd (d_group d) (name st) (variant_rows ds sc kind config results)))
         \<and> solver_rows fd (d_group d) (name st) (variant_rows ds sc kind config results) \<noteq> []"
proof -
  let ?T = "len_by_division fd (filter selected selection)"
  let ?R = "filter (\<lambda>r. result.track r = SingleQuery ds) results"
  from assms(4) make_podium_Inr(1) [OF assms(3), of kind] podium_steps_collect [OF assms(1,2), of kind]
  obtain a where a: "a \<in> set (ranked pl sc fd ?T kind config ?R (d_group d))" and st: "st = podium_step a"
    by auto
  from a obtain s t where t: "map_of ?T (d_group d) = Some t"
    and ne: "solver_rows fd (d_group d) s (filter_for sc kind config ?R) \<noteq> []"
    and a': "a = agg_row pl sc s t (solver_rows fd (d_group d) s (filter_for sc kind config ?R))"
    unfolding set_ranked [OF distinct_len_by_division] by blast
  from t in_collect(2,3) [OF assms(1,2)] have t': "t = of_nat (total_of fd selection (d_group d))"
    by simp
  from st a' have "name st = s"
    by (simp add: podium_step_def agg_row_def)
  with st a' t' ne show ?thesis
    by (simp add: variant_rows_def)
qed

lemma abstained_entry:
  assumes "sq_collect pl ds sc config selection results fd = Inr df"
    and "d \<in> set df"
    and "make_podium ds config d fd = Inr p"
    and "st \<in> set (ranked_of kind p)"
  shows "PodiumStep.abstained st =
           (int (total_of fd selection (d_group d))
            - int (length (solver_rows fd (d_group d) (name st)
                 (variant_rows ds sc kind config results)))) mod 2 ^ 32"
proof -
  let ?T = "total_of fd selection (d_group d)"
  let ?rows = "solver_rows fd (d_group d) (name st) (variant_rows ds sc kind config results)"
  from ranked_entry [OF assms]
  have "st = podium_step (agg_row pl sc (name st) (of_nat ?T) ?rows)"
    by (rule conjunct1)
  then have "PodiumStep.abstained st =
               PodiumStep.abstained (podium_step (agg_row pl sc (name st) (of_nat ?T) ?rows))"
    by simp
  then show ?thesis
    by (simp add: podium_step_def agg_row_def pl_len_def uint_of_nat_diff)
qed

section \<open>Concrete runs\<close>

lemma demo_collect:
  "sq_collect demo_polars demo_defs demo_scoring demo_config demo_selection demo_results True = Inr demo_df"
proof -
  have "len_by_division True (filter selected demo_selection) = [(1, 3), (2, 1)]"
    by code_simp
  then show ?thesis
    by (simp add: sq_collect_eq demo_df_def)
qed

lemma demo_d_in: "demo_d \<in> set demo_df"
  by (simp add: demo_df_def demo_d_def)

lemma demo_podium: "make_podium demo_defs demo_config demo_d True = Inr demo_p"
  using make_podium_collect [OF demo_collect demo_d_in] by (auto simp: demo_p_def)

lemma demo_seq: "d_kind demo_d Kind.seq = Some [demo_A, demo_B]"
  by code_simp

lemma demo_st: "podium_step demo_B \<in> set (ranked_of Kind.seq demo_p)"
  using make_podium_Inr(1) [OF demo_podium, of Kind.seq] demo_seq
  by (simp add: podium_steps_def)

lemma demo_group: "d_group demo_d = 1"
  by (simp add: demo_d_def collected_row_def)

lemma demo_name: "name (podium_step demo_B) = ''B''"
  by (simp add: podium_step_def demo_B_def)

lemma demo_rows:
  "[demo_result ''B'' 1 1 Sat (- 1) 0, demo_result ''B'' 1 2 Sat 0 1] =
     solver_rows True (d_group demo_d) (name (podium_step demo_B))
       (variant_rows demo_defs demo_scoring Kind.seq demo_config demo_results)"
  unfolding demo_group demo_name by code_simp

lemma demo_total: "total_of True demo_selection (d_group demo_d) = 3"
  unfolding demo_group by code_simp

lemma excess_run:
  "sq_generate_datas demo_polars demo_defs demo_scoring demo_config excess_selection excess_results True =
     Inr [(''Arith'', excess_podium)]"
  by code_simp

lemma excess_collect:
  "sq_collect demo_polars demo_defs demo_scoring demo_config excess_selection excess_results True = Inr [excess_d]"
proof -
  have "len_by_division True (filter selected excess_selection) = [(1, 1)]"
    by code_simp
  then show ?thesis
    by (simp add: sq_collect_eq excess_d_def)
qed

lemma excess_make: "make_podium demo_defs demo_config excess_d True = Inr excess_podium"
  by code_simp

lemma excess_st: "excess_step \<in> set (ranked_of Kind.seq excess_podium)"
  by (simp add: excess_podium_def)

lemma excess_group: "d_group excess_d = 1"
  by (simp add: excess_d_def collected_row_def)

lemma excess_name: "name excess_step = ''A''"
  by (simp add: excess_step_def)

lemma excess_total: "total_of True excess_selection (d_group excess_d) = 1"
  unfolding excess_group by code_simp

lemma excess_rows:
  "length (solver_rows True (d_group excess_d) (name excess_step)
         (variant_rows demo_defs demo_scoring Kind.seq demo_config excess_results)) = 2"
  unfolding excess_group excess_name by code_simp

lemma excess_counts:
  "total_of True excess_selection (d_group excess_d)
     < length (solver_rows True (d_group excess_d) (name excess_step)
         (variant_rows demo_defs demo_scoring Kind.seq demo_config excess_results))
   \<and> length (solver_rows True (d_group excess_d) (name excess_step)
         (variant_rows demo_defs demo_scoring Kind.seq demo_config excess_results)) < 2 ^ 32"
  by (simp add: excess_total excess_rows)

lemma overflow_run:
  "sq_generate_datas demo_polars demo_defs demo_scoring demo_config overflow_selection
       overflow_results True =
     Inr [(''Arith'', overflow_podium)]"
  by code_simp

lemma dash_run:
  "sq_generate_datas demo_polars demo_defs demo_scoring demo_config excess_selection dash_results True =
     Inr [(''Arith'', dash_podium)]"
  by code_simp

section \<open>The properties\<close>

text \<open>
  The properties are stated on the rows \<open>d\<close> of the collected frame
  (\<^const>\<open>sq_collect\<close>, line 195) and the record \<open>p\<close> that \<^const>\<open>make_podium\<close> builds
  from \<open>d\<close>: \<^const>\<open>sq_generate_datas\<close> returns these records, keyed by the name of the
  group. The row carries the group value \<open>d_group d\<close>, which the record does not.
\<close>

subsection \<open>C1: the order of a ranked list\<close>

text \<open>
  C1. For every group value and every kind, the ranked list is sorted in descending
  lexicographic order of the score columns (in the order of \<^verbatim>\<open>scoring.scores\<close>) followed
  by the solver identifier, and the order is strict: no two entries of a list have the
  same key. The list \<open>l\<close> is the column of the kind in the row of the group; the record
  holds its image under \<^const>\<open>podium_step\<close>, which keeps the order of the entries (and
  stores the error score negated, see C10).
\<close>

theorem ranked_list_strictly_descending:
  assumes "sq_collect pl ds sc config selection results fd = Inr df"
    and "d \<in> set df"
    and "make_podium ds config d fd = Inr p"
    and "d_kind d kind = Some l"
  shows "ranked_of kind p = map podium_step l
         \<and> sorted_wrt (\<lambda>a b. rank_key sc b < rank_key sc a) l
         \<and> distinct (map (rank_key sc) l)"
proof -
  let ?r = "ranked pl sc fd (len_by_division fd (filter selected selection)) kind config
              (filter (\<lambda>r. result.track r = SingleQuery ds) results) (d_group d)"
  from assms(4) in_collect(1) [OF assms(1,2), of kind] have l: "l = ?r"
    by (simp split: if_splits)
  have s: "sorted_wrt (\<lambda>a b. rank_key sc b < rank_key sc a) l"
    unfolding l by (rule sorted_ranked)
  from make_podium_Inr(1) [OF assms(3), of kind] assms(4)
  have "ranked_of kind p = map podium_step l"
    by (simp add: podium_steps_def)
  with s strict_sorted_distinct [OF s] show ?thesis by simp
qed

theorem ranked_list_strictly_descending_witness:
  "ranked_of Kind.seq demo_p = map podium_step [demo_A, demo_B]
   \<and> sorted_wrt (\<lambda>a b. rank_key demo_scoring b < rank_key demo_scoring a) [demo_A, demo_B]
   \<and> distinct (map (rank_key demo_scoring) [demo_A, demo_B])"
  by (rule ranked_list_strictly_descending [OF demo_collect demo_d_in demo_podium demo_seq])

subsection \<open>C2: the winner\<close>

text \<open>
  C2, as amended. For every group value and every kind, the winner is \<^verbatim>\<open>-\<close> when the
  ranked list is empty or the correctness score of its first entry is zero, and the
  solver identifier of the first entry otherwise. So \<^verbatim>\<open>-\<close> is returned exactly when the
  list is empty, or the first entry's correctness score is zero, or the first entry's
  solver identifier is itself \<^verbatim>\<open>-\<close>.
\<close>

theorem winner_rule:
  assumes "sq_collect pl ds sc config selection results fd = Inr df"
    and "d \<in> set df"
    and "make_podium ds config d fd = Inr p"
  shows "winner_of kind p =
           (case ranked_of kind p of
              [] \<Rightarrow> ''-''
            | st # _ \<Rightarrow> if correctScore st = 0 then ''-'' else name st)
         \<and> (winner_of kind p = ''-'' \<longleftrightarrow>
              ranked_of kind p = [] \<or> correctScore (hd (ranked_of kind p)) = 0
              \<or> name (hd (ranked_of kind p)) = ''-'')"
proof -
  have w: "get_winner (d_kind d kind) = Inr (winner_of kind p)"
    and r: "ranked_of kind p = podium_steps (d_kind d kind)"
    by (rule make_podium_Inr [OF assms(3)])+
  have "winner_of kind p =
           (case ranked_of kind p of
              [] \<Rightarrow> ''-''
            | st # _ \<Rightarrow> if correctScore st = 0 then ''-'' else name st)"
  proof (cases "d_kind d kind")
    case None
    with w r show ?thesis
      by (simp add: get_winner_def podium_steps_def)
  next
    case (Some l)
    with in_collect(1) [OF assms(1,2), of kind] have "l \<noteq> []"
      by (auto split: if_splits)
    then obtain a l' where "l = a # l'" by (cases l) auto
    with Some w r show ?thesis
      by (auto simp: get_winner_def podium_steps_def podium_step_def)
  qed
  then show ?thesis
    by (cases "ranked_of kind p") auto
qed

theorem winner_rule_witness:
  "winner_of Kind.seq demo_p =
           (case ranked_of Kind.seq demo_p of
              [] \<Rightarrow> ''-''
            | st # _ \<Rightarrow> if correctScore st = 0 then ''-'' else name st)
   \<and> (winner_of Kind.seq demo_p = ''-'' \<longleftrightarrow>
        ranked_of Kind.seq demo_p = [] \<or> correctScore (hd (ranked_of Kind.seq demo_p)) = 0
        \<or> name (hd (ranked_of Kind.seq demo_p)) = ''-'')"
  by (rule winner_rule [OF demo_collect demo_d_in demo_podium])

text \<open>
  The claim as stated fails for a solver named \<^verbatim>\<open>-\<close>: its list is not empty and its
  correctness score is 1, and the winner is \<^verbatim>\<open>-\<close>.
\<close>

theorem winner_sentinel_counterexample:
  "sq_generate_datas demo_polars demo_defs demo_scoring demo_config excess_selection dash_results True =
     Inr [(''Arith'', dash_podium)]
   \<and> winner_of Kind.seq dash_podium = ''-''
   \<and> ranked_of Kind.seq dash_podium = [dash_step]
   \<and> correctScore dash_step = 1"
  by (simp add: dash_run) (simp add: dash_podium_def dash_step_def)

subsection \<open>C3: the counts of a solver add up to the total\<close>

text \<open>
  C3, as amended. For every group value \<open>G\<close>, every kind and every entry of the ranked
  list of \<open>G\<close>: if every row is classified into exactly one of solved, unknown, timeout
  and memout, and the solver has at most \<open>total(G)\<close> rows in \<open>G\<close>, and \<open>total(G) < 2^32\<close>,
  then solved + unsolved + timeout + memout + abstained is \<open>total(G)\<close>, the number of
  selected benchmarks of \<open>G\<close>.
\<close>

theorem counts_sum_to_total:
  assumes "sq_collect pl ds sc config selection results fd = Inr df"
    and "d \<in> set df"
    and "make_podium ds config d fd = Inr p"
    and "st \<in> set (ranked_of kind p)"
    and "\<forall>r\<in>set (variant_rows ds sc kind config results). classified sc r"
    and "length (solver_rows fd (d_group d) (name st) (variant_rows ds sc kind config results))
           \<le> total_of fd selection (d_group d)"
    and "total_of fd selection (d_group d) < 2 ^ 32"
  shows "PodiumStep.solved st + PodiumStep.unsolved st + PodiumStep.timeout st
           + PodiumStep.memout st + PodiumStep.abstained st = n_benchmarks p
         \<and> n_benchmarks p = int (total_of fd selection (d_group d))"
proof -
  let ?T = "total_of fd selection (d_group d)"
  let ?rows = "solver_rows fd (d_group d) (name st) (variant_rows ds sc kind config results)"
  have T: "?T < 2 ^ 32"
    by (rule assms(7))
  with assms(6) have n: "length ?rows < 2 ^ 32" by simp
  have "\<forall>r\<in>set ?rows. classified sc r"
    using assms(5) by (simp add: solver_rows_def)
  then have c: "length (filter (known_answer sc) ?rows) + length (filter (unknown_answer sc) ?rows)
       + length (filter (timeout_answer sc) ?rows) + length (filter (memout_answer sc) ?rows)
     = length ?rows"
    by (rule classified_sum)
  from ranked_entry [OF assms(1-4)]
  have st: "st = podium_step (agg_row pl sc (name st) (of_nat ?T) ?rows)"
    by (rule conjunct1)
  have "PodiumStep.solved st = int (length (filter (known_answer sc) ?rows))"
    and "PodiumStep.unsolved st = int (length (filter (unknown_answer sc) ?rows))"
    and "PodiumStep.timeout st = int (length (filter (timeout_answer sc) ?rows))"
    and "PodiumStep.memout st = int (length (filter (memout_answer sc) ?rows))"
    by (subst st, simp add: podium_step_def agg_row_def uint_pl_count [OF n])+
  moreover have "(int ?T - int (length ?rows)) mod 2 ^ 32 = int ?T - int (length ?rows)"
    using assms(6) T by (intro mod_pos_pos_trivial) auto
  then have "PodiumStep.abstained st = int ?T - int (length ?rows)"
    using abstained_entry [OF assms(1-4)] by simp
  moreover have "n_benchmarks p = int ?T"
    using make_podium_Inr(3) [OF assms(3)] in_collect(3) [OF assms(1,2)] T
    by (simp add: uint_of_nat_u32)
  ultimately show ?thesis
    using c by simp
qed

theorem counts_sum_to_total_witness:
  "PodiumStep.solved (podium_step demo_B) + PodiumStep.unsolved (podium_step demo_B)
     + PodiumStep.timeout (podium_step demo_B) + PodiumStep.memout (podium_step demo_B)
     + PodiumStep.abstained (podium_step demo_B) = n_benchmarks demo_p
   \<and> n_benchmarks demo_p = int (total_of True demo_selection (d_group demo_d))"
proof -
  have c: "\<forall>r\<in>set (variant_rows demo_defs demo_scoring Kind.seq demo_config demo_results).
             classified demo_scoring r"
    by code_simp
  have n: "length (solver_rows True (d_group demo_d) (name (podium_step demo_B))
                    (variant_rows demo_defs demo_scoring Kind.seq demo_config demo_results))
             \<le> total_of True demo_selection (d_group demo_d)"
    unfolding demo_rows [symmetric] demo_total by simp
  have s: "total_of True demo_selection (d_group demo_d) < 2 ^ 32"
    unfolding demo_total by simp
  show ?thesis
    by (rule counts_sum_to_total [OF demo_collect demo_d_in demo_podium demo_st c n s])
qed

text \<open>
  The claim as stated fails when a solver has more rows than the group has selected
  benchmarks: every row is classified, the counts are 2, 0, 0, 0 and \<open>2^32 - 1\<close>, and
  the total is 1.
\<close>

theorem counts_sum_counterexample:
  "sq_generate_datas demo_polars demo_defs demo_scoring demo_config excess_selection excess_results True =
     Inr [(''Arith'', excess_podium)]
   \<and> list_all (classified demo_scoring)
       (variant_rows demo_defs demo_scoring Kind.seq demo_config excess_results)
   \<and> ranked_of Kind.seq excess_podium = [excess_step]
   \<and> PodiumStep.solved excess_step + PodiumStep.unsolved excess_step
       + PodiumStep.timeout excess_step + PodiumStep.memout excess_step
       + PodiumStep.abstained excess_step = 4294967297
   \<and> n_benchmarks excess_podium = 1
   \<and> total_of True excess_selection 1 = 1"
proof -
  have "list_all (classified demo_scoring)
          (variant_rows demo_defs demo_scoring Kind.seq demo_config excess_results)"
    by code_simp
  moreover have "total_of True excess_selection 1 = 1"
    by code_simp
  ultimately show ?thesis
    by (simp add: excess_run) (simp add: excess_podium_def excess_step_def)
qed

subsection \<open>C4: the abstained count\<close>

text \<open>
  C4, as amended. For every group value, every kind and every solver of the ranked list,
  the abstained count is the total \<open>T\<close> of selected benchmarks of the group minus the
  number \<open>n\<close> of rows the solver contributes to the group under the kind, computed in
  unsigned 32 bit arithmetic: it is \<open>(T - n) mod 2^32\<close>, which is \<open>T - n\<close> whenever
  \<open>n \<le> T < 2^32\<close>.
\<close>

theorem abstained_is_wrapped_difference:
  assumes "sq_collect pl ds sc config selection results fd = Inr df"
    and "d \<in> set df"
    and "make_podium ds config d fd = Inr p"
    and "st \<in> set (ranked_of kind p)"
    and "T = total_of fd selection (d_group d)"
    and "n = length (solver_rows fd (d_group d) (name st) (variant_rows ds sc kind config results))"
  shows "PodiumStep.abstained st = (int T - int n) mod 2 ^ 32
         \<and> (n \<le> T \<and> T < 2 ^ 32 \<longrightarrow> PodiumStep.abstained st = int T - int n)"
proof -
  have a: "PodiumStep.abstained st = (int T - int n) mod 2 ^ 32"
    unfolding assms(5,6) by (rule abstained_entry [OF assms(1-4)])
  have "(int T - int n) mod 2 ^ 32 = int T - int n" if "n \<le> T" and "T < 2 ^ 32"
    using that by (intro mod_pos_pos_trivial) auto
  with a show ?thesis by simp
qed

theorem abstained_is_wrapped_difference_witness:
  "PodiumStep.abstained (podium_step demo_B) =
     (int (total_of True demo_selection (d_group demo_d))
      - int (length (solver_rows True (d_group demo_d) (name (podium_step demo_B))
           (variant_rows demo_defs demo_scoring Kind.seq demo_config demo_results)))) mod 2 ^ 32
   \<and> PodiumStep.abstained (podium_step demo_B) =
     int (total_of True demo_selection (d_group demo_d))
      - int (length (solver_rows True (d_group demo_d) (name (podium_step demo_B))
           (variant_rows demo_defs demo_scoring Kind.seq demo_config demo_results)))"
proof -
  have "length (solver_rows True (d_group demo_d) (name (podium_step demo_B))
                    (variant_rows demo_defs demo_scoring Kind.seq demo_config demo_results))
             \<le> total_of True demo_selection (d_group demo_d)
        \<and> total_of True demo_selection (d_group demo_d) < 2 ^ 32"
    unfolding demo_rows [symmetric] demo_total by simp
  with abstained_is_wrapped_difference [OF demo_collect demo_d_in demo_podium demo_st refl refl]
  show ?thesis by blast
qed

text \<open>
  The claim as stated fails when a solver has more rows than the group has selected
  benchmarks: the total is 1, the solver has 2 rows, and the abstained count is
  \<open>2^32 - 1\<close>, not \<open>- 1\<close>.
\<close>

theorem abstained_counterexample:
  "sq_generate_datas demo_polars demo_defs demo_scoring demo_config excess_selection excess_results True =
     Inr [(''Arith'', excess_podium)]
   \<and> ranked_of Kind.seq excess_podium = [excess_step]
   \<and> PodiumStep.abstained excess_step = 4294967295
   \<and> int (total_of True excess_selection 1)
       - int (length (solver_rows True 1 ''A''
            (variant_rows demo_defs demo_scoring Kind.seq demo_config excess_results))) = - 1"
proof -
  have "int (total_of True excess_selection 1)
       - int (length (solver_rows True 1 ''A''
            (variant_rows demo_defs demo_scoring Kind.seq demo_config excess_results))) = - 1"
    by code_simp
  then show ?thesis
    by (simp add: excess_run) (simp add: excess_podium_def excess_step_def)
qed

subsection \<open>C5: more rows than the total\<close>

text \<open>
  C5, as amended. No input makes the aggregation fail: \<^verbatim>\<open>sq_generate_datas\<close> and
  \<^verbatim>\<open>export_results\<close> return without an error. When a solver contributes more rows
  \<open>n\<close> to a group than the group has selected benchmarks \<open>T\<close> (with \<open>n < 2^32\<close>), the
  record of the solver is produced with the abstained count \<open>T - n + 2^32\<close>, a positive
  number: the unsigned subtraction wraps around, it is neither negative nor clamped.
\<close>

theorem row_excess_is_not_an_error:
  assumes "sq_collect pl ds sc config selection results fd = Inr df"
    and "d \<in> set df"
    and "make_podium ds config d fd = Inr p"
    and "st \<in> set (ranked_of kind p)"
    and "T = total_of fd selection (d_group d)"
    and "n = length (solver_rows fd (d_group d) (name st) (variant_rows ds sc kind config results))"
    and "T < n"
    and "n < 2 ^ 32"
  shows "(\<exists>m. sq_generate_datas pl ds sc config selection results fd = Inr m)
         \<and> (\<exists>w. export_results pl ds sc config selection results = (w, None))
         \<and> PodiumStep.abstained st = int T - int n + 2 ^ 32
         \<and> 0 < PodiumStep.abstained st"
proof -
  have "PodiumStep.abstained st = (int T - int n) mod 2 ^ 32"
    unfolding assms(5,6) by (rule abstained_entry [OF assms(1-4)])
  also have "\<dots> = (int T - int n + 2 ^ 32) mod 2 ^ 32"
    by simp
  also have "\<dots> = int T - int n + 2 ^ 32"
    using assms(7,8) by (intro mod_pos_pos_trivial) auto
  finally have a: "PodiumStep.abstained st = int T - int n + 2 ^ 32" .
  moreover from a assms(8) have "0 < PodiumStep.abstained st"
    by simp
  ultimately show ?thesis
    using sq_generate_datas_total [of pl ds sc config selection results fd]
      export_results_total [of pl ds sc config selection results]
    by simp
qed

theorem row_excess_is_not_an_error_witness:
  "(\<exists>m. sq_generate_datas demo_polars demo_defs demo_scoring demo_config excess_selection excess_results True
           = Inr m)
   \<and> (\<exists>w. export_results demo_polars demo_defs demo_scoring demo_config excess_selection excess_results
           = (w, None))
   \<and> PodiumStep.abstained excess_step =
       int (total_of True excess_selection (d_group excess_d))
       - int (length (solver_rows True (d_group excess_d) (name excess_step)
            (variant_rows demo_defs demo_scoring Kind.seq demo_config excess_results)))
       + 2 ^ 32
   \<and> 0 < PodiumStep.abstained excess_step"
  by (rule row_excess_is_not_an_error
        [OF excess_collect _ excess_make excess_st refl refl
            conjunct1 [OF excess_counts] conjunct2 [OF excess_counts]])
     simp

text \<open>
  The claim as stated fails on the run with one selected benchmark and two rows of a
  solver: the aggregation returns its records, with the abstained count \<open>2^32 - 1\<close>.
\<close>

theorem row_excess_counterexample:
  "total_of True excess_selection 1
     < length (solver_rows True 1 ''A''
         (variant_rows demo_defs demo_scoring Kind.seq demo_config excess_results))
   \<and> sq_generate_datas demo_polars demo_defs demo_scoring demo_config excess_selection excess_results True
       = Inr [(''Arith'', excess_podium)]
   \<and> PodiumStep.abstained (hd (sequential excess_podium)) = 4294967295"
proof -
  have "total_of True excess_selection 1
     < length (solver_rows True 1 ''A''
         (variant_rows demo_defs demo_scoring Kind.seq demo_config excess_results))"
    by code_simp
  then show ?thesis
    by (simp add: excess_run) (simp add: excess_podium_def excess_step_def)
qed

subsection \<open>C6: a group without results for a kind\<close>

text \<open>
  C6. A group value that is in the totals table and not in the aggregation of a kind
  has a row in the collected frame, in which the column of the kind is null. Nothing
  fails: the dictionary is returned, and the record it holds under the name of the
  group is the record built from that row; its ranked list for the kind is empty and
  its winner of the kind is \<^verbatim>\<open>-\<close>. The name of the group is taken to be the name of no
  other group of the totals table: the names are those of the members of the
  enumerations \<^verbatim>\<open>Division\<close> and \<^verbatim>\<open>Logic\<close>, which are not part of the file, and
  \<^verbatim>\<open>dict\<close> keeps one record for a name.
\<close>

theorem absent_group_gives_empty_list:
  assumes "g \<in> fst ` set (len_by_division fd (filter selected selection))"
    and "g \<notin> fst ` set (info_for_podium_step pl sc fd (len_by_division fd (filter selected selection))
                 kind config (filter (\<lambda>r. result.track r = SingleQuery ds) results))"
    and "\<forall>g'\<in>fst ` set (len_by_division fd (filter selected selection)).
           name_of_int ds fd g' = name_of_int ds fd g \<longrightarrow> g' = g"
  shows "\<exists>m df d p. sq_generate_datas pl ds sc config selection results fd = Inr m
           \<and> map_of m (name_of_int ds fd g) = Some p
           \<and> sq_collect pl ds sc config selection results fd = Inr df \<and> d \<in> set df
           \<and> d_group d = g \<and> d_kind d kind = None
           \<and> make_podium ds config d fd = Inr p
           \<and> ranked_of kind p = [] \<and> winner_of kind p = ''-''"
proof -
  let ?df = "map (collected_row pl ds sc config selection results fd)
               (len_by_division fd (filter selected selection))"
  have df: "sq_collect pl ds sc config selection results fd = Inr ?df"
    by (rule sq_collect_eq)
  from assms(1) have "g \<in> group_by fd ` set (filter selected selection)"
    by (simp add: keys_len_by_division)
  then obtain d where d: "d \<in> set ?df" and g: "d_group d = g"
    using collect_has_group by blast
  from assms(2) have "map_of (info_for_podium_step pl sc fd (len_by_division fd (filter selected selection))
                 kind config (filter (\<lambda>r. result.track r = SingleQuery ds) results)) g = None"
    by (simp add: map_of_eq_None_iff)
  then have "ranked pl sc fd (len_by_division fd (filter selected selection)) kind config
                 (filter (\<lambda>r. result.track r = SingleQuery ds) results) g = []"
    by (simp add: map_of_info split: if_splits)
  with in_collect(1) [OF df d, of kind] g have none: "d_kind d kind = None"
    by simp
  obtain p where p: "make_podium ds config d fd = Inr p"
    using make_podium_collect [OF df d] by blast
  from make_podium_Inr(1) [OF p, of kind] none have r: "ranked_of kind p = []"
    by (simp add: podium_steps_def)
  from make_podium_Inr(2) [OF p, of kind] none have w: "winner_of kind p = ''-''"
    by (simp add: get_winner_def)
  from assms(3) g have "\<forall>g'\<in>fst ` set (len_by_division fd (filter selected selection)).
           name_of_int ds fd g' = name_of_int ds fd (d_group d) \<longrightarrow> g' = d_group d"
    by simp
  from sq_generate_datas_lookup [OF df d p this] g
  obtain m where "sq_generate_datas pl ds sc config selection results fd = Inr m"
    and "map_of m (name_of_int ds fd g) = Some p"
    by auto
  with df d g none p r w show ?thesis
    by blast
qed

theorem absent_group_gives_empty_list_witness:
  "\<exists>m df d p.
      sq_generate_datas demo_polars demo_defs demo_scoring demo_config demo_selection demo_results True
        = Inr m
      \<and> map_of m (name_of_int demo_defs True 2) = Some p
      \<and> sq_collect demo_polars demo_defs demo_scoring demo_config demo_selection demo_results True
          = Inr df
      \<and> d \<in> set df \<and> d_group d = 2 \<and> d_kind d Kind.seq = None
      \<and> make_podium demo_defs demo_config d True = Inr p
      \<and> ranked_of Kind.seq p = [] \<and> winner_of Kind.seq p = ''-''"
proof -
  have 1: "2 \<in> fst ` set (len_by_division True (filter selected demo_selection))"
    by code_simp
  have 2: "2 \<notin> fst ` set (info_for_podium_step demo_polars demo_scoring True
                 (len_by_division True (filter selected demo_selection))
                 Kind.seq demo_config (filter (\<lambda>r. result.track r = SingleQuery demo_defs) demo_results))"
    by code_simp
  have 3: "\<forall>g'\<in>fst ` set (len_by_division True (filter selected demo_selection)).
             name_of_int demo_defs True g' = name_of_int demo_defs True 2 \<longrightarrow> g' = 2"
    by code_simp
  show ?thesis
    by (rule absent_group_gives_empty_list [OF 1 2 3])
qed

subsection \<open>C7: disagreements\<close>

text \<open>
  C7. Rows whose disagreement flag is set contribute to nothing: two result frames
  that have the same rows without the flag (one is the other with flagged rows added
  or removed) give the same files, for both grouping keys.
\<close>

theorem disagreements_do_not_count:
  assumes "filter (\<lambda>r. \<not> result.disagreements r) results
             = filter (\<lambda>r. \<not> result.disagreements r) results'"
  shows "export_results pl ds sc config selection results
           = export_results pl ds sc config selection results'"
  by (simp add: export_results_def assms)

theorem disagreements_do_not_count_witness:
  "export_results demo_polars demo_defs demo_scoring demo_config demo_selection (flagged_result # demo_results)
     = export_results demo_polars demo_defs demo_scoring demo_config demo_selection demo_results"
proof -
  have "filter (\<lambda>r. \<not> result.disagreements r) (flagged_result # demo_results)
          = filter (\<lambda>r. \<not> result.disagreements r) demo_results"
    by (simp add: flagged_result_def)
  then show ?thesis
    by (rule disagreements_do_not_count)
qed

subsection \<open>C8: other tracks\<close>

text \<open>
  C8. Only rows of the single query track contribute: two result frames with the same
  rows of that track give the same result, whatever the filter of the kinds, the
  grouping and the scoring do, since these only see the rows of the track.
\<close>

theorem other_tracks_do_not_count:
  assumes "filter (\<lambda>r. result.track r = SingleQuery ds) results
             = filter (\<lambda>r. result.track r = SingleQuery ds) results'"
  shows "sq_generate_datas pl ds sc config selection results fd
           = sq_generate_datas pl ds sc config selection results' fd"
  by (simp add: sq_generate_datas_def sq_collect_def assms)

theorem other_tracks_do_not_count_witness:
  "sq_generate_datas demo_polars demo_defs demo_scoring demo_config demo_selection
       (other_track_result # demo_results) True
     = sq_generate_datas demo_polars demo_defs demo_scoring demo_config demo_selection demo_results True"
proof -
  have "filter (\<lambda>r. result.track r = SingleQuery demo_defs) (other_track_result # demo_results)
          = filter (\<lambda>r. result.track r = SingleQuery demo_defs) demo_results"
    by (simp add: other_track_result_def demo_defs_def)
  then show ?thesis
    by (rule other_tracks_do_not_count)
qed

subsection \<open>C9: the logics of a division\<close>

text \<open>
  C9. When grouping by division, the logic breakdown of a record is the list, sorted in
  ascending order, of the pairs of the name of a logic and the number of selected
  benchmarks of that logic in the division, one pair for each logic of the selected
  benchmarks of the division; the names are strictly ascending. When grouping by logic
  it is empty. The names of the logics of the division are taken to be distinct and the
  selection to have fewer than \<open>2^32\<close> rows.
\<close>

theorem logic_breakdown:
  assumes "sq_collect pl ds sc config selection results fd = Inr df"
    and "d \<in> set df"
    and "make_podium ds config d fd = Inr p"
    and "fd \<Longrightarrow> distinct (map (Logic_name_of_int ds) (division_logics selection (d_group d)))"
    and "fd \<Longrightarrow> length selection < 2 ^ 32"
  shows "logics p =
           (if fd
            then sort (map (\<lambda>l. (Logic_name_of_int ds l, int (logic_count selection (d_group d) l)))
                         (division_logics selection (d_group d)))
            else [])
         \<and> sorted_wrt (<) (map fst (logics p))"
proof (cases fd)
  case False
  with make_podium_Inr(4) [OF assms(3)] show ?thesis
    by (simp add: dict_Nil)
next
  case True
  let ?S = "filter selected selection"
  let ?g = "d_group d"
  let ?K = "filter (\<lambda>k. fst k = ?g) (uniq (map (\<lambda>b. (benchmark.division b, logic b)) ?S))"
  let ?f = "\<lambda>l. (Logic_name_of_int ds l, int (logic_count selection ?g l))"
  from make_podium_Inr(5) [OF assms(3) True] obtain l where l: "d_logics d = Some l"
    and p: "logics p = dict (sort (dict (map (\<lambda>d2. (Logic_name_of_int ds (fst d2), uint (snd d2))) l)))"
    by blast
  from l in_collect(5) [OF assms(1,2) True]
  have "l = map (\<lambda>k. (snd k, pl_len (filter (\<lambda>b. (benchmark.division b, logic b) = k) ?S))) ?K"
    by (simp add: map_of_lf_logics split: if_splits)
  then have items: "map (\<lambda>d2. (Logic_name_of_int ds (fst d2), uint (snd d2))) l = map ?f (map snd ?K)"
    using breakdown_items [OF assms(5) [OF True], of "Logic_name_of_int ds" ?g] by simp
  have sK: "set (map snd ?K) = set (division_logics selection ?g)"
    unfolding logic_keys(2) set_division_logics by auto
  have dL: "distinct (map (Logic_name_of_int ds) (division_logics selection ?g))"
    by (rule assms(4) [OF True])
  then have "inj_on (Logic_name_of_int ds) (set (division_logics selection ?g))"
    by (simp add: distinct_map)
  with sK have "inj_on (Logic_name_of_int ds) (set (map snd ?K))"
    by simp
  with logic_keys(1) [of ?g ?S] have dK: "distinct (map (Logic_name_of_int ds) (map snd ?K))"
    by (simp only: distinct_map)
  then have dist: "distinct (map fst (map ?f (map snd ?K)))"
    by (simp add: comp_def)
  from dL have dist': "distinct (map fst (map ?f (division_logics selection ?g)))"
    by (simp add: comp_def)
  from p items have "logics p = sort (map ?f (map snd ?K))"
    by (simp only: dict_sort_dict(1) [OF dist])
  moreover have "sort (map ?f (map snd ?K)) = sort (map ?f (division_logics selection ?g))"
  proof (rule sort_cong_set)
    from dist show "distinct (map ?f (map snd ?K))"
      by (rule distinct_map [THEN iffD1, THEN conjunct1])
    from dist' show "distinct (map ?f (division_logics selection ?g))"
      by (rule distinct_map [THEN iffD1, THEN conjunct1])
    show "set (map ?f (map snd ?K)) = set (map ?f (division_logics selection ?g))"
      using sK by (simp only: set_map)
  qed
  ultimately show ?thesis
    using True dict_sort_dict(2) [OF dist] by simp
qed

theorem logic_breakdown_witness:
  "logics demo_p =
     sort (map (\<lambda>l. (Logic_name_of_int demo_defs l,
                      int (logic_count demo_selection (d_group demo_d) l)))
             (division_logics demo_selection (d_group demo_d)))
   \<and> sorted_wrt (<) (map fst (logics demo_p))"
proof -
  have 1: "distinct (map (Logic_name_of_int demo_defs) (division_logics demo_selection (d_group demo_d)))"
    unfolding demo_group by code_simp
  have 2: "length demo_selection < 2 ^ 32"
    by (simp add: demo_selection_def)
  from logic_breakdown [OF demo_collect demo_d_in demo_podium 1 2, simplified if_True]
  show ?thesis .
qed

subsection \<open>C10: the score columns of an entry\<close>

text \<open>
  C10, as amended. For every entry of every ranked list, \<^verbatim>\<open>errorScore\<close> is the negation
  of the sum of the error scores of the rows of its solver in its group under its kind
  as Polars aggregates it, that is in wrapping signed 64 bit arithmetic; it is the
  negation of the exact sum whenever that lies between \<open>- 2^63\<close> and \<open>2^63 - 1\<close>. The
  other three scores are emitted as their sums, not negated: \<^verbatim>\<open>correctScore\<close> is the
  wrapping 64 bit sum (the exact sum when it fits), \<^verbatim>\<open>CPUScore\<close> and \<^verbatim>\<open>WallScore\<close> are
  the \<^verbatim>\<open>Float64\<close> sums that Polars computes on their columns.
\<close>

theorem error_score_negated:
  assumes "sq_collect pl ds sc config selection results fd = Inr df"
    and "d \<in> set df"
    and "make_podium ds config d fd = Inr p"
    and "st \<in> set (ranked_of kind p)"
    and "rows = solver_rows fd (d_group d) (name st) (variant_rows ds sc kind config results)"
  shows "errorScore st = - sum_i64 (map result.error_score rows)
         \<and> correctScore st = sum_i64 (map result.correctly_solved_score rows)
         \<and> CPUScore st = sum_f64 pl (map result.cpu_time_score rows)
         \<and> WallScore st = sum_f64 pl (map result.wallclock_time_score rows)
         \<and> (- (2 ^ 63) \<le> sum_list (map result.error_score rows)
              \<and> sum_list (map result.error_score rows) < 2 ^ 63
              \<longrightarrow> errorScore st = - sum_list (map result.error_score rows))
         \<and> (- (2 ^ 63) \<le> sum_list (map result.correctly_solved_score rows)
              \<and> sum_list (map result.correctly_solved_score rows) < 2 ^ 63
              \<longrightarrow> correctScore st = sum_list (map result.correctly_solved_score rows))"
proof -
  let ?a = "agg_row pl sc (name st) (of_nat (total_of fd selection (d_group d))) rows"
  from ranked_entry [OF assms(1-4)] have "st = podium_step ?a"
    unfolding assms(5) by (rule conjunct1)
  then have "errorScore st = errorScore (podium_step ?a)"
    and "correctScore st = correctScore (podium_step ?a)"
    and "CPUScore st = CPUScore (podium_step ?a)"
    and "WallScore st = WallScore (podium_step ?a)"
    by simp_all
  then have "errorScore st = - sum_i64 (map result.error_score rows)"
    and "correctScore st = sum_i64 (map result.correctly_solved_score rows)"
    and "CPUScore st = sum_f64 pl (map result.cpu_time_score rows)"
    and "WallScore st = sum_f64 pl (map result.wallclock_time_score rows)"
    by (simp_all add: podium_step_def agg_row_def)
  then show ?thesis
    by (simp add: sum_i64_exact)
qed

theorem error_score_negated_witness:
  "errorScore (podium_step demo_B) =
     - sum_i64 (map result.error_score
                  [demo_result ''B'' 1 1 Sat (- 1) 0, demo_result ''B'' 1 2 Sat 0 1])
   \<and> correctScore (podium_step demo_B) =
     sum_i64 (map result.correctly_solved_score
                [demo_result ''B'' 1 1 Sat (- 1) 0, demo_result ''B'' 1 2 Sat 0 1])
   \<and> CPUScore (podium_step demo_B) =
     sum_f64 demo_polars (map result.cpu_time_score
                [demo_result ''B'' 1 1 Sat (- 1) 0, demo_result ''B'' 1 2 Sat 0 1])
   \<and> WallScore (podium_step demo_B) =
     sum_f64 demo_polars (map result.wallclock_time_score
                [demo_result ''B'' 1 1 Sat (- 1) 0, demo_result ''B'' 1 2 Sat 0 1])
   \<and> errorScore (podium_step demo_B) =
     - sum_list (map result.error_score
                  [demo_result ''B'' 1 1 Sat (- 1) 0, demo_result ''B'' 1 2 Sat 0 1])
   \<and> correctScore (podium_step demo_B) =
     sum_list (map result.correctly_solved_score
                [demo_result ''B'' 1 1 Sat (- 1) 0, demo_result ''B'' 1 2 Sat 0 1])"
proof -
  have "- (2 ^ 63) \<le> sum_list (map result.error_score
                  [demo_result ''B'' 1 1 Sat (- 1) 0, demo_result ''B'' 1 2 Sat 0 1])
        \<and> sum_list (map result.error_score
                  [demo_result ''B'' 1 1 Sat (- 1) 0, demo_result ''B'' 1 2 Sat 0 1]) < 2 ^ 63"
    by (simp add: demo_result_def)
  moreover have "- (2 ^ 63) \<le> sum_list (map result.correctly_solved_score
                  [demo_result ''B'' 1 1 Sat (- 1) 0, demo_result ''B'' 1 2 Sat 0 1])
        \<and> sum_list (map result.correctly_solved_score
                  [demo_result ''B'' 1 1 Sat (- 1) 0, demo_result ''B'' 1 2 Sat 0 1]) < 2 ^ 63"
    by (simp add: demo_result_def)
  ultimately show ?thesis
    using error_score_negated [OF demo_collect demo_d_in demo_podium demo_st demo_rows]
    by blast
qed

text \<open>
  The claim as stated fails when the sum of the error scores leaves the 64 bits: the
  error scores \<open>- 2^63\<close> and \<open>- 1\<close> are aggregated to \<open>2^63 - 1\<close>, and
  \<^verbatim>\<open>errorScore\<close> is \<open>- (2^63 - 1)\<close>, while the negation of their sum is \<open>2^63 + 1\<close>.
\<close>

theorem error_score_counterexample:
  "sq_generate_datas demo_polars demo_defs demo_scoring demo_config overflow_selection
       overflow_results True =
     Inr [(''Arith'', overflow_podium)]
   \<and> ranked_of Kind.seq overflow_podium = [overflow_step]
   \<and> errorScore overflow_step = - 9223372036854775807
   \<and> - sum_list (map result.error_score
         (solver_rows True 1 ''A''
            (variant_rows demo_defs demo_scoring Kind.seq demo_config overflow_results)))
       = 9223372036854775809"
proof -
  have "- sum_list (map result.error_score
         (solver_rows True 1 ''A''
            (variant_rows demo_defs demo_scoring Kind.seq demo_config overflow_results)))
       = 9223372036854775809"
    by code_simp
  then show ?thesis
    by (simp add: overflow_run) (simp add: overflow_podium_def overflow_step_def)
qed

end
